theory Spec2Isabelle
  imports Complex_Main "HOL-Library.Extended_Nat" "HOL-Library.Multiset"
begin

section \<open>Order numbers: formatting and parsing\<close>

text \<open>
  JavaScript strings are modelled as \<open>string\<close> (the characters with codes 0..255), a
  value that may be \<open>undefined\<close> or \<open>null\<close> as an \<open>option\<close>. An order number is a JavaScript
  number that is a non-negative integer or \<open>Infinity\<close>: an \<open>enat\<close> whose finite values
  stand for doubles. \<open>toDouble v\<close> is the double nearest to the integer \<open>v\<close> (53
  significant bits, ties to the even significand), and \<open>toCount\<close> adds the overflow to
  \<open>Infinity\<close> at \<open>2^1024 - 2^970\<close>.
\<close>

definition ORDER_NUMBER_PAD :: nat where
  "ORDER_NUMBER_PAD = 4"

definition isDigit :: "char \<Rightarrow> bool" where
  \<comment> \<open>the class \<open>\d\<close> of a JavaScript regular expression\<close>
  "isDigit c = (48 \<le> (of_char c :: nat) \<and> (of_char c :: nat) \<le> 57)"

definition digitChar :: "nat \<Rightarrow> char" where
  \<comment> \<open>the character of a decimal digit \<open>d < 10\<close>\<close>
  "digitChar d = ''0123456789'' ! d"

fun decimal :: "nat \<Rightarrow> string" where
  "decimal n = (if n < 10 then [digitChar n] else decimal (n div 10) @ [digitChar (n mod 10)])"

declare decimal.simps [simp del]

fun bitLength :: "nat \<Rightarrow> nat" where
  "bitLength n = (if n = 0 then 0 else Suc (bitLength (n div 2)))"

declare bitLength.simps [simp del]

definition toDouble :: "nat \<Rightarrow> nat" where
  "toDouble v =
     (if v \<le> 2 ^ 53 then v
      else (let sh = bitLength v - 53; q = v div 2 ^ sh; r = v mod 2 ^ sh; half = 2 ^ (sh - 1)
            in (if half < r \<or> (r = half \<and> odd q) then q + 1 else q) * 2 ^ sh))"

definition toCount :: "nat \<Rightarrow> enat" where
  "toCount v = (if 2 ^ 1024 - 2 ^ 970 \<le> v then \<infinity> else enat (toDouble v))"

text \<open>
  \<open>String(x)\<close> of a positive integer \<open>x\<close> (Number::toString of the language standard):
  with \<open>k\<close> as small as possible, \<open>s\<close> is a numeral of \<open>k\<close> digits and \<open>n\<close> an exponent
  such that \<open>s * 10^(n - k)\<close> rounds to \<open>x\<close>, the closest to \<open>x\<close> where several do. Up
  to \<open>n = 21\<close> the digits of \<open>s\<close> are printed followed by \<open>n - k\<close> zeros, beyond that in
  exponent notation. \<open>digitCandidate x D k\<close> is the \<open>s\<close> of \<open>k\<close> digits for the
  exponent \<open>D\<close>, the number of digits of \<open>x\<close>; the only candidate with another exponent
  is \<open>10^D\<close> itself.
\<close>

definition digitCandidate :: "nat \<Rightarrow> nat \<Rightarrow> nat \<Rightarrow> nat option" where
  "digitCandidate x D k =
     (let p = 10 ^ (D - k); lo = x div p; hi = lo + 1;
          okLo = (10 ^ (k - 1) \<le> lo \<and> lo < 10 ^ k \<and> toDouble (lo * p) = x);
          okHi = (10 ^ (k - 1) \<le> hi \<and> hi < 10 ^ k \<and> toDouble (hi * p) = x)
      in if okLo \<and> okHi
         then (if x - lo * p < hi * p - x then Some lo
               else if hi * p - x < x - lo * p then Some hi
               else if even lo then Some lo else Some hi)
         else if okLo then Some lo
         else if okHi then Some hi
         else None)"

definition shortestDigits :: "nat \<Rightarrow> nat \<times> nat \<times> nat" where
  "shortestDigits x =
     (let D = length (decimal x)
      in if toDouble (10 ^ D) = x then (1, 1, D + 1)
         else (case List.map_filter (\<lambda>k. map_option (\<lambda>s. (s, k)) (digitCandidate x D k)) [1..<Suc D] of
                 [] \<Rightarrow> (x, D, D)
               | (s, k) # rest \<Rightarrow> (s, k, D)))"

definition renderDigits :: "nat \<times> nat \<times> nat \<Rightarrow> string" where
  "renderDigits t =
     (case t of
        (s, k, n) \<Rightarrow>
          if n \<le> 21 then decimal s @ replicate (n - k) (CHR ''0'')
          else (case decimal s of
                  [] \<Rightarrow> []
                | d # ds \<Rightarrow>
                    (if k = 1 then [d] else d # CHR ''.'' # ds) @ ''e+'' @ decimal (n - 1)))"

definition numberToString :: "enat \<Rightarrow> string" where
  \<comment> \<open>\<open>String(value)\<close>\<close>
  "numberToString v =
     (case v of
        \<infinity> \<Rightarrow> ''Infinity''
      | enat x \<Rightarrow> if x = 0 then ''0'' else renderDigits (shortestDigits x))"

definition padStart :: "string \<Rightarrow> nat \<Rightarrow> char \<Rightarrow> string" where
  \<comment> \<open>\<open>s.padStart(w, c)\<close> with a one-character filler\<close>
  "padStart s w c = replicate (w - length s) c @ s"

definition formatOrderNumber :: "enat \<Rightarrow> string" where
  "formatOrderNumber v = CHR ''#'' # padStart (numberToString v) ORDER_NUMBER_PAD (CHR ''0'')"

definition paddedDigits :: "nat \<Rightarrow> string" where
  \<comment> \<open>the digits of a formatted order number below \<open>2^53\<close>, after the marker character\<close>
  "paddedDigits n = padStart (decimal n) ORDER_NUMBER_PAD (CHR ''0'')"

definition matchDigits :: "string \<Rightarrow> string option" where
  \<comment> \<open>\<open>s.match(/(\d+)/)\<close>: the first maximal run of digits, \<open>null\<close> when there is none\<close>
  "matchDigits s =
     (let r = dropWhile (\<lambda>c. \<not> isDigit c) s
      in if r = [] then None else Some (takeWhile isDigit r))"

definition digitsValue :: "string \<Rightarrow> nat" where
  \<comment> \<open>the integer that a string of decimal digits denotes\<close>
  "digitsValue ds = foldl (\<lambda>acc c. 10 * acc + ((of_char c :: nat) - 48)) 0 ds"

definition digitsToNumber :: "string \<Rightarrow> enat" where
  \<comment> \<open>\<open>Number(ds)\<close> of a string of decimal digits\<close>
  "digitsToNumber ds = toCount (digitsValue ds)"

definition parseOrderNumber :: "string option \<Rightarrow> enat" where
  "parseOrderNumber v =
     (case v of
        None \<Rightarrow> 0
      | Some s \<Rightarrow>
          if s = [] then 0
          else (case matchDigits s of None \<Rightarrow> 0 | Some ds \<Rightarrow> digitsToNumber ds))"

definition toNumberCount :: "enat \<Rightarrow> enat" where
  \<comment> \<open>\<open>toNumber\<close> on a stored counter value: \<open>Number.isFinite(parsed) ? parsed : 0\<close>\<close>
  "toNumberCount v = (case v of enat n \<Rightarrow> enat n | \<infinity> \<Rightarrow> 0)"

definition plusOne :: "enat \<Rightarrow> enat" where
  \<comment> \<open>\<open>v + 1\<close> in double arithmetic\<close>
  "plusOne v = (case v of enat n \<Rightarrow> toCount (n + 1) | \<infinity> \<Rightarrow> \<infinity>)"

section \<open>JavaScript values\<close>

definition truthy :: "string option \<Rightarrow> bool" where
  \<comment> \<open>truthiness of a value that is \<open>undefined\<close> or a string\<close>
  "truthy v = (case v of None \<Rightarrow> False | Some s \<Rightarrow> s \<noteq> [])"

definition orElse :: "string option \<Rightarrow> string \<Rightarrow> string" where
  \<comment> \<open>\<open>v || d\<close>\<close>
  "orElse v d = (case v of None \<Rightarrow> d | Some s \<Rightarrow> if s \<noteq> [] then s else d)"

definition firstTruthy :: "string option \<Rightarrow> string option \<Rightarrow> string option" where
  \<comment> \<open>\<open>a || b\<close> of two values that may be undefined\<close>
  "firstTruthy a b = (if truthy a then a else b)"

definition isSpace :: "char \<Rightarrow> bool" where
  \<comment> \<open>the class \<open>\s\<close> on character codes below 256: tab, line feed, vertical tab, form
      feed, carriage return, space and the no-break space; \<open>trim\<close> strips the same set\<close>
  "isSpace c = ((of_char c :: nat) \<in> {9, 10, 11, 12, 13, 32, 160})"

definition trim :: "string \<Rightarrow> string" where
  "trim s = rev (dropWhile isSpace (rev (dropWhile isSpace s)))"

definition toLowerChar :: "char \<Rightarrow> char" where
  "toLowerChar c =
     (let n = (of_char c :: nat)
      in if (65 \<le> n \<and> n \<le> 90) \<or> (192 \<le> n \<and> n \<le> 222 \<and> n \<noteq> 215)
         then char_of (n + 32) else c)"

definition toLowerCase :: "string \<Rightarrow> string" where
  "toLowerCase s = map toLowerChar s"

datatype jsnum = Fin real | NonFinite

text \<open>
  \<open>jsnum\<close> is what \<open>Number(value)\<close> yields for a stored field: a finite number, or a
  value that is not finite (\<open>NaN\<close> for a missing or malformed field, an infinity).
\<close>

definition toNumber :: "jsnum \<Rightarrow> real" where
  "toNumber parsed = (case parsed of Fin x \<Rightarrow> x | NonFinite \<Rightarrow> 0)"

section \<open>Errors, messages and the environment\<close>

datatype error_code = failed_precondition | not_found | invalid_argument | permission_denied

datatype error =
    HttpsError error_code string
  | TransportError

record message =
  to :: "string list"
  subject :: string

datatype response = Response "string option"

text \<open>
  A \<open>message\<close> is what \<open>sendEmail\<close> hands to the mail transport. The HTML body, a string
  template over the order, is left out of the model: no control flow depends on it.
  The environment holds the configuration read at each invocation and the behaviour of
  the external transport: \<open>transport m\<close> is the outcome of \<open>resend.emails.send\<close> on
  \<open>m\<close>, either a rejection or a response with an optional delivery id
  (\<open>result?.data?.id\<close>).
\<close>

record environment =
  RESEND_API_KEY :: "string option"
  config_resend_api_key :: "string option"
  ADMIN_EMAIL :: "string option"
  config_admin_email :: "string option"
  transport :: "message \<Rightarrow> error + response"

definition getResendClient :: "environment \<Rightarrow> (message \<Rightarrow> error + response) option" where
  "getResendClient env =
     (if truthy (firstTruthy (RESEND_API_KEY env) (config_resend_api_key env))
      then Some (transport env) else None)"

type_synonym 'a io = "(error + 'a) \<times> message list"

text \<open>
  An operation that sends mail returns its outcome (\<open>Inl\<close> for a thrown error) together
  with the list of messages it handed to the transport, in order.
\<close>

definition andThen :: "'a io \<Rightarrow> ('a \<Rightarrow> 'b io) \<Rightarrow> 'b io" where
  \<comment> \<open>\<open>await first; rest\<close>: a thrown error ends the handler\<close>
  "andThen first rest =
     (case first of
        (Inl e, sent) \<Rightarrow> (Inl e, sent)
      | (Inr x, sent) \<Rightarrow> (case rest x of (r, sent') \<Rightarrow> (r, sent @ sent')))"

section \<open>Recipient resolver\<close>

definition ADMIN_EMAIL_EXCLUSIONS :: "string list" where
  "ADMIN_EMAIL_EXCLUSIONS = [''bradsgbaker14@gmail.com'', ''admin@thecrookedfence.co.za'']"

definition ADMIN_EMAIL_FALLBACKS :: "string list" where
  "ADMIN_EMAIL_FALLBACKS = [''stolschristopher60@gmail.com'']"

definition isSeparator :: "char \<Rightarrow> bool" where
  \<comment> \<open>the class \<open>[;,\s]\<close>\<close>
  "isSeparator c = (c = CHR '';'' \<or> c = CHR '','' \<or> isSpace c)"

function splitSeparators :: "string \<Rightarrow> string list" where
  "splitSeparators s =
     (let piece = takeWhile (\<lambda>c. \<not> isSeparator c) s;
          rest = dropWhile (\<lambda>c. \<not> isSeparator c) s
      in if rest = [] then [piece]
         else piece # splitSeparators (dropWhile isSeparator rest))"
  by pat_completeness auto
termination
proof (relation "measure length")
  show "wf (measure length)" by simp
next
  fix s :: string and piece rest
  assume r: "rest = dropWhile (\<lambda>c. \<not> isSeparator c) s" and ne: "rest \<noteq> []"
  have "length (dropWhile isSeparator rest) < length rest"
  proof (cases rest)
    case Nil
    with ne show ?thesis by simp
  next
    case (Cons c cs)
    with r have "isSeparator c"
      by (metis hd_dropWhile list.sel(1) ne)
    with Cons have "length (dropWhile isSeparator rest) \<le> length cs"
      by (simp add: length_dropWhile_le)
    with Cons show ?thesis by simp
  qed
  moreover have "length rest \<le> length s"
    using r by (simp add: length_dropWhile_le)
  ultimately show "(dropWhile isSeparator rest, s) \<in> measure length" by simp
qed

declare splitSeparators.simps [simp del]

text \<open>
  \<open>splitSeparators s\<close> is \<open>s.split(/[;,\s]+/)\<close>: the pieces between the maximal runs of
  separators, with an empty first piece when \<open>s\<close> starts with a separator and an empty
  last piece when it ends with one.
\<close>

definition keepAddress :: "string \<Rightarrow> bool" where
  "keepAddress address = (address \<noteq> [] \<and> toLowerCase address \<notin> set ADMIN_EMAIL_EXCLUSIONS)"

definition rawAdminEmail :: "environment \<Rightarrow> string" where
  \<comment> \<open>\<open>process.env.ADMIN_EMAIL || functions.config()?.admin?.email || ""\<close>\<close>
  "rawAdminEmail env = orElse (firstTruthy (ADMIN_EMAIL env) (config_admin_email env)) []"

definition getAdminRecipients :: "environment \<Rightarrow> string list" where
  "getAdminRecipients env =
     (let email = rawAdminEmail env
      in if email = [] then []
         else (let recipients = filter keepAddress (map trim (splitSeparators email))
               in if length recipients > 0 then recipients else ADMIN_EMAIL_FALLBACKS))"

section \<open>Delivery client\<close>

definition sendEmail :: "environment \<Rightarrow> string list \<Rightarrow> string \<Rightarrow> response option io" where
  "sendEmail env recipients subj =
     (case getResendClient env of
        None \<Rightarrow> (Inl (HttpsError failed_precondition ''Resend API key is not configured.''), [])
      | Some resend \<Rightarrow>
          (let filtered = filter (\<lambda>a. a \<noteq> []) recipients
           in if length filtered = 0 then (Inr None, [])
              else (let m = \<lparr>to = filtered, subject = subj\<rparr>
                    in (case resend m of
                          Inl e \<Rightarrow> (Inl e, [m])
                        | Inr result \<Rightarrow> (Inr (Some result), [m])))))"


section \<open>The document store\<close>

record order_doc =
  orderNumber :: "string option"
  email :: "string option"
  sendDate :: "string option"
  orderStatus :: "string option"
  dispatchEmailSentAt :: bool

text \<open>
  An order document with the fields that decide control flow; a field that is absent is
  \<open>None\<close>, and \<open>dispatchEmailSentAt\<close> records whether the server timestamp has been
  written. The store holds the collection \<open>orderCounters\<close> (document id to
  \<open>lastNumber\<close>, written by the allocator only, hence an order number) and the order
  collections, each a list of documents with their ids. Store calls are taken to succeed.
\<close>

record db =
  orderCounters :: "string \<rightharpoonup> enat"
  orders :: "string \<Rightarrow> (string \<times> order_doc) list"

type_synonym doc_ref = "string \<times> string"

definition emptyStore :: db where
  "emptyStore = \<lparr>orderCounters = Map.empty, orders = (\<lambda>collectionName. [])\<rparr>"

datatype store_op =
    TxGetCounter string
  | TxGetLatest string
  | TxSetCounter string enat
  | SetOrderNumber doc_ref string

definition emptyDoc :: order_doc where
  "emptyDoc = \<lparr>orderNumber = None, email = None, sendDate = None, orderStatus = None,
               dispatchEmailSentAt = False\<rparr>"

fun mergeDoc :: "string \<Rightarrow> (order_doc \<Rightarrow> order_doc) \<Rightarrow> (string \<times> order_doc) list
    \<Rightarrow> (string \<times> order_doc) list" where
  "mergeDoc i f [] = [(i, f emptyDoc)]"
| "mergeDoc i f ((j, doc) # rest) =
     (if i = j then (j, f doc) # rest else (j, doc) # mergeDoc i f rest)"

definition setMerge :: "doc_ref \<Rightarrow> (order_doc \<Rightarrow> order_doc) \<Rightarrow> db \<Rightarrow> db" where
  \<comment> \<open>\<open>ref.set(fields, { merge: true })\<close>: updates the document, creating it when absent\<close>
  "setMerge ref f d =
     d\<lparr>orders := (orders d)(fst ref := mergeDoc (snd ref) f (orders d (fst ref)))\<rparr>"

fun stringLess :: "string \<Rightarrow> string \<Rightarrow> bool" where
  "stringLess [] [] = False"
| "stringLess [] (y # ys) = True"
| "stringLess (x # xs) [] = False"
| "stringLess (x # xs) (y # ys) =
     ((of_char x :: nat) < of_char y \<or> (x = y \<and> stringLess xs ys))"

definition latestOrderNumber :: "(string \<times> order_doc) list \<Rightarrow> string option" where
  \<comment> \<open>\<open>.orderBy("orderNumber", "desc").limit(1)\<close>: the store orders strings by their
      character codes, and leaves out the documents that lack the field\<close>
  "latestOrderNumber docs =
     (case List.map_filter (\<lambda>(i, doc). orderNumber doc) docs of
        [] \<Rightarrow> None
      | s # ss \<Rightarrow> Some (foldl (\<lambda>m t. if stringLess m t then t else m) s ss))"

section \<open>Sequence allocator\<close>

definition allocateTx :: "string \<Rightarrow> db \<Rightarrow> enat \<times> db \<times> store_op list" where
  \<comment> \<open>the body of \<open>db.runTransaction\<close> in \<open>assignOrderNumber\<close>, run atomically\<close>
  "allocateTx collectionName d =
     (let (lastNumber, reads) =
            (case orderCounters d collectionName of
               Some v \<Rightarrow> (toNumberCount v, [TxGetCounter collectionName])
             | None \<Rightarrow>
                 (case latestOrderNumber (orders d collectionName) of
                    None \<Rightarrow> (0, [TxGetCounter collectionName, TxGetLatest collectionName])
                  | Some v \<Rightarrow>
                      (parseOrderNumber (Some v),
                       [TxGetCounter collectionName, TxGetLatest collectionName])));
          nxt = plusOne lastNumber
      in (nxt,
          d\<lparr>orderCounters := (orderCounters d)(collectionName \<mapsto> nxt)\<rparr>,
          reads @ [TxSetCounter collectionName nxt]))"

definition stampOrder :: "doc_ref \<Rightarrow> string \<Rightarrow> db \<Rightarrow> db" where
  \<comment> \<open>\<open>orderRef.set({ orderNumber: formatted }, { merge: true })\<close>\<close>
  "stampOrder orderRef formatted d =
     setMerge orderRef (\<lambda>doc. doc\<lparr>orderNumber := Some formatted\<rparr>) d"

definition assignOrderNumber :: "string \<Rightarrow> doc_ref \<Rightarrow> db \<Rightarrow> string \<times> db \<times> store_op list" where
  "assignOrderNumber collectionName orderRef d =
     (case allocateTx collectionName d of
        (nextNumber, d', ops) \<Rightarrow>
          (let formatted = formatOrderNumber nextNumber
           in (formatted, stampOrder orderRef formatted d',
               ops @ [SetOrderNumber orderRef formatted])))"


definition currentLast :: "string \<Rightarrow> db \<Rightarrow> enat" where
  \<comment> \<open>the value of \<open>lastNumber\<close> that the next transaction starts from\<close>
  "currentLast collectionName d =
     (case orderCounters d collectionName of
        Some v \<Rightarrow> toNumberCount v
      | None \<Rightarrow> parseOrderNumber (latestOrderNumber (orders d collectionName)))"

definition assignedNumbers :: "(string \<times> order_doc) list \<Rightarrow> enat list" where
  \<comment> \<open>the numbers that the records of a stream carry, record by record; a record
      without a number (or with a text without digits) reads as 0 and is left out\<close>
  "assignedNumbers docs =
     filter (\<lambda>n. n \<noteq> 0) (map (\<lambda>(i, doc). parseOrderNumber (orderNumber doc)) docs)"

text \<open>
  Concurrent callers: the transactions are atomic and commit in some order, and the write
  of the number onto the order happens at any later time. A configuration is the store,
  the stamps still to be written and the numbers committed so far, in commit order.
\<close>

inductive run :: "string \<Rightarrow> db \<times> (doc_ref \<times> string) multiset \<times> enat list
    \<Rightarrow> db \<times> (doc_ref \<times> string) multiset \<times> enat list \<Rightarrow> bool"
  for collectionName :: string where
  start: "run collectionName c c"
| commit: "run collectionName c (d, pending, committed) \<Longrightarrow>
     allocateTx collectionName d = (n, d', ops) \<Longrightarrow>
     fst r = collectionName \<Longrightarrow>
     run collectionName c (d', add_mset (r, formatOrderNumber n) pending, committed @ [n])"
| stamp: "run collectionName c (d, pending, committed) \<Longrightarrow>
     (r, formatted) \<in># pending \<Longrightarrow>
     run collectionName c (stampOrder r formatted d, pending - {#(r, formatted)#}, committed)"

definition highestAssigned :: "(string \<times> order_doc) list \<Rightarrow> enat" where
  \<comment> \<open>the highest number carried by a record of the stream, 0 when there is none\<close>
  "highestAssigned docs = foldl max 0 (map (\<lambda>(i, doc). parseOrderNumber (orderNumber doc)) docs)"


section \<open>Order status notifications\<close>

definition orderNumberLabel :: "order_doc \<Rightarrow> string" where
  "orderNumberLabel order =
     (let number = orElse (orderNumber order) []
      in if number \<noteq> [] then '' '' @ number else [])"

definition skip :: "unit io" where
  "skip = (Inr (), [])"

definition sendOrderStatusEmails ::
    "environment \<Rightarrow> order_doc \<Rightarrow> string option \<Rightarrow> string option \<Rightarrow> unit io" where
  "sendOrderStatusEmails env order previousStatus nextStatus =
     (if \<not> truthy nextStatus \<or> orElse nextStatus [] \<in> set [''archived'', ''cancelled'']
      then skip
      else
        (let adminRecipients = getAdminRecipients env
         in andThen
              (if truthy (email order)
               then andThen
                      (sendEmail env [orElse (email order) []]
                         (''Your order'' @ orderNumberLabel order @ '' status update''))
                      (\<lambda>result. skip)
               else skip)
              (\<lambda>u. if length adminRecipients > 0
                    then andThen
                           (sendEmail env adminRecipients
                              (''Order status updated'' @ orderNumberLabel order))
                           (\<lambda>result. skip)
                    else skip)))"

definition notifiedOrder :: "order_doc \<Rightarrow> order_doc \<Rightarrow> order_doc" where
  \<comment> \<open>the order that the trigger passes on, \<open>{ ...after, orderNumber }\<close> with
      \<open>orderNumber = after.orderNumber || before.orderNumber || ""\<close>\<close>
  "notifiedOrder before after =
     after\<lparr>orderNumber :=
       Some (orElse (firstTruthy (orderNumber after) (orderNumber before)) [])\<rparr>"

definition emailOnStatusChange :: "environment \<Rightarrow> order_doc \<Rightarrow> order_doc \<Rightarrow> unit io" where
  \<comment> \<open>the \<open>onUpdate\<close> trigger of both order collections, on the documents before and
      after the write\<close>
  "emailOnStatusChange env before after =
     (if orderStatus before = orderStatus after then skip
      else sendOrderStatusEmails env (notifiedOrder before after)
             (orderStatus before) (orderStatus after))"

definition customerStatusMessage :: "order_doc \<Rightarrow> message" where
  \<comment> \<open>the customer update of \<open>sendOrderStatusEmails\<close>\<close>
  "customerStatusMessage order =
     \<lparr>to = [orElse (email order) []],
      subject = ''Your order'' @ orderNumberLabel order @ '' status update''\<rparr>"

definition adminStatusMessage :: "environment \<Rightarrow> order_doc \<Rightarrow> message" where
  \<comment> \<open>the admin copy of \<open>sendOrderStatusEmails\<close>\<close>
  "adminStatusMessage env order =
     \<lparr>to = getAdminRecipients env,
      subject = ''Order status updated'' @ orderNumberLabel order\<rparr>"

section \<open>Dispatch notification\<close>

definition BOOTSTRAP_ADMINS :: "string list" where
  "BOOTSTRAP_ADMINS =
     [''bradsgbaker14@gmail.com'', ''admin@thecrookedfence.co.za'',
      ''stolschristopher60@gmail.com'']"

definition BRAND_NAME :: string where
  "BRAND_NAME = ''The Crooked Fence''"

record call_context =
  token_email :: "string option"
  token_role :: "string option"

definition getRoleFromContext :: "call_context \<Rightarrow> string option" where
  "getRoleFromContext ctx =
     (let address = toLowerCase (orElse (token_email ctx) [])
      in if truthy (token_role ctx) then token_role ctx
         else if address \<in> set BOOTSTRAP_ADMINS then Some ''admin''
         else None)"

definition requireStaff :: "call_context \<Rightarrow> error + unit" where
  "requireStaff ctx =
     (let role = getRoleFromContext ctx
      in if role \<noteq> Some ''admin'' \<and> role \<noteq> Some ''super_admin'' \<and> role \<noteq> Some ''worker''
         then Inl (HttpsError permission_denied ''Staff access required.'')
         else Inr ())"

definition sendDispatchEmail ::
    "environment \<Rightarrow> call_context \<Rightarrow> string option \<Rightarrow> string option \<Rightarrow> db
      \<Rightarrow> (error + string option) \<times> message list \<times> db" where
  "sendDispatchEmail env ctx dataCollectionName dataOrderId d =
     (case requireStaff ctx of
        Inl e \<Rightarrow> (Inl e, [], d)
      | Inr u \<Rightarrow>
     (let collectionName = trim (orElse dataCollectionName [])
      in if collectionName \<notin> set [''eggOrders'', ''livestockOrders'']
         then (Inl (HttpsError invalid_argument ''Invalid collection name.''), [], d)
         else
     (let orderId = trim (orElse dataOrderId [])
      in if orderId = []
         then (Inl (HttpsError invalid_argument ''Order id is required.''), [], d)
         else
     (case map_of (orders d collectionName) orderId of
        None \<Rightarrow> (Inl (HttpsError not_found ''Order not found.''), [], d)
      | Some order \<Rightarrow>
     (let address = trim (orElse (email order) [])
      in if address = []
         then (Inl (HttpsError failed_precondition ''Order email is missing.''), [], d)
         else
     (case sendEmail env [address]
             (''Your order'' @ orderNumberLabel order @ '' update from '' @ BRAND_NAME) of
        (Inl e, sent) \<Rightarrow> (Inl e, sent, d)
      | (Inr result, sent) \<Rightarrow>
          (Inr (case result of
                  None \<Rightarrow> None
                | Some (Response i) \<Rightarrow> if truthy i then i else None),
           sent,
           setMerge (collectionName, orderId) (\<lambda>doc. doc\<lparr>dispatchEmailSentAt := True\<rparr>) d)))))))"

definition canSendDispatch :: "order_doc \<Rightarrow> string \<Rightarrow> bool" where
  \<comment> \<open>the dashboard's guard on its dispatch button, on the order and the send date of
      the edited draft (which starts as \<open>order.sendDate ?? ""\<close>)\<close>
  "canSendDispatch order draftSendDate = (truthy (email order) \<and> draftSendDate \<noteq> [])"

section \<open>Threshold watcher\<close>

record stock_doc =
  name :: "string option"
  quantity :: jsnum
  threshold :: jsnum

definition thresholdCrossed :: "stock_doc option \<Rightarrow> stock_doc \<Rightarrow> bool" where
  \<comment> \<open>the tests of \<open>stockThresholdAlert\<close> between reading the documents and composing
      the alert; \<open>Number.isFinite\<close> holds of every result of \<open>toNumber\<close>\<close>
  "thresholdCrossed before after =
     (let limit = toNumber (threshold after)
      in if limit \<le> 0 then False
         else
           (let afterQty = toNumber (quantity after);
                beforeQty = map_option (\<lambda>b. toNumber (quantity b)) before
            in (case beforeQty of
                  Some q \<Rightarrow> if q \<le> limit then False else afterQty \<le> limit
                | None \<Rightarrow> afterQty \<le> limit)))"

definition stockThresholdAlert ::
    "environment \<Rightarrow> stock_doc option \<Rightarrow> stock_doc option \<Rightarrow> unit io" where
  "stockThresholdAlert env before afterSnap =
     (case afterSnap of
        None \<Rightarrow> skip
      | Some after \<Rightarrow>
          if thresholdCrossed before after
          then (let adminRecipients = getAdminRecipients env
                in if length adminRecipients = 0 then skip
                   else andThen
                          (sendEmail env adminRecipients
                             (''Stock alert: '' @ orElse (name after) ''Item'' @ '' low''))
                          (\<lambda>result. skip))
          else skip)"

section \<open>Client-side allocation poller\<close>

text \<open>
  The loop of \<open>submitOrder\<close> after the order is created. \<open>getDoc i\<close> is what the read of
  attempt \<open>i\<close> observes: a rejection, or the \<open>orderNumber\<close> of the snapshot. The result
  comes with the number of reads and the number of 250 ms sleeps performed.
\<close>

function pollOrderNumber ::
    "(nat \<Rightarrow> error + string option) \<Rightarrow> nat \<Rightarrow> nat \<Rightarrow> (error + string option) \<times> nat \<times> nat" where
  "pollOrderNumber getDoc i sleeps =
     (if i < 5
      then (case getDoc i of
              Inl e \<Rightarrow> (Inl e, i + 1, sleeps)
            | Inr nextNumber \<Rightarrow>
                if truthy nextNumber then (Inr nextNumber, i + 1, sleeps)
                else pollOrderNumber getDoc (i + 1) (sleeps + 1))
      else (Inr None, i, sleeps))"
  by pat_completeness auto
termination
  by (relation "measure (\<lambda>(getDoc, i, sleeps). 5 - i)") auto

declare pollOrderNumber.simps [simp del]

definition successMessage :: "string option \<Rightarrow> string" where
  "successMessage updatedOrderNumber =
     (if truthy updatedOrderNumber
      then ''Order submitted! Your order number is '' @ orElse updatedOrderNumber []
             @ ''. Please use it as your payment reference.''
      else ''Order submitted successfully! Thank you for your support.'')"


section \<open>Example configurations\<close>

definition acceptAll :: "message \<Rightarrow> error + response" where
  \<comment> \<open>a transport that accepts every message\<close>
  "acceptAll m = Inr (Response (Some ''re_1''))"

definition configuredEnv :: environment where
  "configuredEnv =
     \<lparr>RESEND_API_KEY = Some ''key'', config_resend_api_key = None,
      ADMIN_EMAIL = Some ''owner@example.org'', config_admin_email = None,
      transport = acceptAll\<rparr>"

definition noKeyEnv :: environment where
  \<comment> \<open>an admin address but no API key\<close>
  "noKeyEnv = configuredEnv\<lparr>RESEND_API_KEY := None\<rparr>"

definition mixedEnv :: environment where
  \<comment> \<open>two configured addresses, the second one excluded\<close>
  "mixedEnv =
     configuredEnv\<lparr>ADMIN_EMAIL := Some ''a@x.com, Admin@TheCrookedFence.co.za''\<rparr>"

definition excludedOnlyEnv :: environment where
  \<comment> \<open>every configured address is excluded\<close>
  "excludedOnlyEnv =
     configuredEnv\<lparr>ADMIN_EMAIL := Some ''BradsGBaker14@gmail.com; admin@thecrookedfence.co.za''\<rparr>"

definition unconfiguredEnv :: environment where
  \<comment> \<open>no API key and no admin address\<close>
  "unconfiguredEnv =
     \<lparr>RESEND_API_KEY = None, config_resend_api_key = None,
      ADMIN_EMAIL = None, config_admin_email = None,
      transport = acceptAll\<rparr>"

definition sampleOrder :: order_doc where
  "sampleOrder =
     \<lparr>orderNumber = Some ''#0007'', email = Some ''jo@example.org'',
      sendDate = Some ''2025-03-01'', orderStatus = Some ''pending'',
      dispatchEmailSentAt = False\<rparr>"

definition legacyStore :: db where
  \<comment> \<open>no counter yet; two records numbered by hand before the counter existed\<close>
  "legacyStore =
     emptyStore\<lparr>orders := (\<lambda>c. if c = ''eggOrders''
                               then [(''a'', emptyDoc\<lparr>orderNumber := Some ''9''\<rparr>),
                                     (''b'', emptyDoc\<lparr>orderNumber := Some ''10''\<rparr>)]
                               else [])\<rparr>"

definition saturatedStore :: db where
  \<comment> \<open>the counter of the stream stands at \<open>2^53 - 1\<close>, the largest safe integer\<close>
  "saturatedStore =
     emptyStore\<lparr>orderCounters := [''eggOrders'' \<mapsto> enat 9007199254740991]\<rparr>"

definition freshStore :: db where
  \<comment> \<open>no counter yet; two records created and not yet numbered\<close>
  "freshStore =
     emptyStore\<lparr>orders := (\<lambda>c. if c = ''eggOrders''
                               then [(''a'', emptyDoc), (''b'', emptyDoc)]
                               else [])\<rparr>"

definition lateStamps :: db where
  \<comment> \<open>two allocations on \<open>freshStore\<close>, for record a and then for record b, whose
      numbers are written onto the records in the opposite order\<close>
  "lateStamps =
     (let (n1, d1, ops1) = allocateTx ''eggOrders'' freshStore;
          (n2, d2, ops2) = allocateTx ''eggOrders'' d1
      in stampOrder (''eggOrders'', ''a'') (formatOrderNumber n1)
           (stampOrder (''eggOrders'', ''b'') (formatOrderNumber n2) d2))"

definition stockAt :: "real \<Rightarrow> stock_doc" where
  \<comment> \<open>a stock item with threshold 5 and the given quantity\<close>
  "stockAt q = \<lparr>name = Some ''Feed'', quantity = Fin q, threshold = Fin 5\<rparr>"

definition neverNumbered :: "nat \<Rightarrow> error + string option" where
  \<comment> \<open>every read finds the order still without a number\<close>
  "neverNumbered i = Inr None"

definition numberedAtThird :: "nat \<Rightarrow> error + string option" where
  \<comment> \<open>the number shows up at the third read\<close>
  "numberedAtThird i = (if i < 2 then Inr None else Inr (Some ''#0007''))"

definition staffContext :: call_context where
  "staffContext = \<lparr>token_email = Some ''worker@example.org'', token_role = Some ''worker''\<rparr>"

section \<open>Properties of number formatting\<close>

lemma digit_cases:
  "d < 10 \<Longrightarrow> d = 0 \<or> d = 1 \<or> d = 2 \<or> d = 3 \<or> d = 4 \<or> d = 5 \<or> d = 6 \<or> d = 7 \<or> d = 8 \<or> d = (9::nat)"
  by arith

lemma isDigit_digitChar: "d < 10 \<Longrightarrow> isDigit (digitChar d)"
  using digit_cases [of d] by (auto simp: isDigit_def digitChar_def)

lemma of_char_digitChar: "d < 10 \<Longrightarrow> (of_char (digitChar d) :: nat) - 48 = d"
  using digit_cases [of d] by (auto simp: digitChar_def)

lemma isDigit_zero: "isDigit (CHR ''0'')"
  by (simp add: isDigit_def)

lemma not_isDigit_hash: "\<not> isDigit (CHR ''#'')"
  by (simp add: isDigit_def)

lemma decimal_digits: "\<forall>c \<in> set (decimal n). isDigit c"
proof (induction n rule: decimal.induct)
  case (1 n)
  show ?case
  proof (cases "n < 10")
    case True
    then show ?thesis
      by (subst decimal.simps) (simp add: isDigit_digitChar)
  next
    case False
    with 1 show ?thesis
      by (subst decimal.simps) (simp add: isDigit_digitChar)
  qed
qed

lemma decimal_nonempty: "decimal n \<noteq> []"
  by (subst decimal.simps) simp

lemma digitsValue_snoc:
  "digitsValue (ds @ [c]) = 10 * digitsValue ds + ((of_char c :: nat) - 48)"
  by (simp add: digitsValue_def)

lemma digitsValue_decimal: "digitsValue (decimal n) = n"
proof (induction n rule: decimal.induct)
  case (1 n)
  show ?case
  proof (cases "n < 10")
    case True
    then show ?thesis
      by (subst decimal.simps) (simp add: digitsValue_def of_char_digitChar)
  next
    case False
    with 1 have "digitsValue (decimal (n div 10)) = n div 10" by simp
    with False show ?thesis
      by (subst decimal.simps) (simp add: digitsValue_snoc of_char_digitChar)
  qed
qed

lemma foldl_zeros:
  "foldl (\<lambda>acc c. 10 * acc + ((of_char c :: nat) - 48)) 0 (replicate k (CHR ''0'')) = 0"
  by (induction k) simp_all

lemma digitsValue_zeros: "digitsValue (replicate k (CHR ''0'') @ ds) = digitsValue ds"
  by (simp add: digitsValue_def foldl_zeros)

lemma digitsValue_append_zeros:
  "digitsValue (ds @ replicate m (CHR ''0'')) = digitsValue ds * 10 ^ m"
proof (induction m)
  case 0
  show ?case by simp
next
  case (Suc m)
  have "ds @ replicate (Suc m) (CHR ''0'') = (ds @ replicate m (CHR ''0'')) @ [CHR ''0'']"
    by (simp add: replicate_append_same)
  then have "digitsValue (ds @ replicate (Suc m) (CHR ''0''))
      = 10 * digitsValue (ds @ replicate m (CHR ''0''))"
    by (simp only: digitsValue_snoc) simp
  with Suc show ?case by simp
qed

lemma matchDigits_marked:
  assumes "\<forall>c \<in> set ds. isDigit c" and "ds \<noteq> []"
  shows "matchDigits (CHR ''#'' # ds) = Some ds"
proof -
  obtain d ds' where ds: "ds = d # ds'" using assms(2) by (cases ds) auto
  with assms(1) have "isDigit d" by simp
  then have "dropWhile (\<lambda>c. \<not> isDigit c) (CHR ''#'' # ds) = ds"
    by (simp add: not_isDigit_hash ds)
  moreover have "takeWhile isDigit ds = ds"
    using assms(1) by (simp add: takeWhile_eq_all_conv)
  ultimately show ?thesis using assms(2) by (simp add: matchDigits_def)
qed

lemma parse_marked_digits:
  assumes "\<forall>c \<in> set ds. isDigit c" and "ds \<noteq> []"
  shows "parseOrderNumber (Some (CHR ''#'' # padStart ds ORDER_NUMBER_PAD (CHR ''0'')))
     = toCount (digitsValue ds)"
proof -
  let ?p = "padStart ds ORDER_NUMBER_PAD (CHR ''0'')"
  have all: "\<forall>c \<in> set ?p. isDigit c"
    using assms(1) by (auto simp: padStart_def isDigit_zero)
  have ne: "?p \<noteq> []" using assms(2) by (simp add: padStart_def)
  have "matchDigits (CHR ''#'' # ?p) = Some ?p" by (rule matchDigits_marked [OF all ne])
  moreover have "digitsValue ?p = digitsValue ds" by (simp add: padStart_def digitsValue_zeros)
  ultimately show ?thesis by (simp add: parseOrderNumber_def digitsToNumber_def)
qed

lemma decimal_length: "0 < k \<Longrightarrow> n < 10 ^ k \<Longrightarrow> length (decimal n) \<le> k"
proof (induction n arbitrary: k rule: decimal.induct)
  case (1 n)
  show ?case
  proof (cases "n < 10")
    case True
    with "1.prems" show ?thesis by (subst decimal.simps) simp
  next
    case False
    with "1.prems" obtain j where k: "k = Suc j" by (cases k) auto
    with False "1.prems" have j: "0 < j" by (cases j) auto
    from "1.prems" k have "n div 10 < 10 ^ j"
      by (simp add: less_mult_imp_div_less mult.commute)
    from "1.IH" [OF False j this] have "length (decimal (n div 10)) \<le> j" .
    with False k show ?thesis by (subst decimal.simps) simp
  qed
qed

lemma less_power_length: "n < 10 ^ length (decimal n)"
proof (induction n rule: decimal.induct)
  case (1 n)
  show ?case
  proof (cases "n < 10")
    case True
    then show ?thesis by (subst decimal.simps) simp
  next
    case False
    from "1.IH" [OF False] have "n div 10 < 10 ^ length (decimal (n div 10))" .
    then have "n < 10 * 10 ^ length (decimal (n div 10))"
      by (simp add: div_less_iff_less_mult mult.commute)
    with False show ?thesis by (subst decimal.simps) simp
  qed
qed

lemma decimal_shift: "0 < s \<Longrightarrow> decimal (s * 10 ^ m) = decimal s @ replicate m (CHR ''0'')"
proof (induction m)
  case 0
  show ?case by simp
next
  case (Suc m)
  have ge: "\<not> s * 10 ^ Suc m < 10" using Suc.prems by (simp add: not_less) 
  have "decimal (s * 10 ^ Suc m)
      = decimal (s * 10 ^ Suc m div 10) @ [digitChar (s * 10 ^ Suc m mod 10)]"
    using ge by (subst decimal.simps) simp
  also have "s * 10 ^ Suc m div 10 = s * 10 ^ m" by simp
  also have "s * 10 ^ Suc m mod 10 = 0" by simp
  also have "digitChar 0 = CHR ''0''" by (simp add: digitChar_def)
  finally show ?case using Suc by (simp add: replicate_append_same)
qed

lemma toDouble_small: "v \<le> 2 ^ 53 \<Longrightarrow> toDouble v = v"
  by (simp add: toDouble_def)

lemma bitLength_bounds: "0 < v \<Longrightarrow> 2 ^ (bitLength v - 1) \<le> v \<and> v < 2 ^ bitLength v"
proof (induction v rule: bitLength.induct)
  case (1 n)
  show ?case
  proof (cases "n div 2 = 0")
    case True
    with "1.prems" have "n = 1" by (cases n) auto
    then show ?thesis by (simp add: bitLength.simps)
  next
    case False
    with "1.IH" "1.prems" have ih: "2 ^ (bitLength (n div 2) - 1) \<le> n div 2"
        "n div 2 < 2 ^ bitLength (n div 2)"
      by simp_all
    have b: "bitLength n = Suc (bitLength (n div 2))"
      using "1.prems" by (subst bitLength.simps) simp
    have pos: "0 < bitLength (n div 2)" using False by (subst bitLength.simps) simp
    then obtain j where j: "bitLength (n div 2) = Suc j" by (cases "bitLength (n div 2)") auto
    from ih(1) j have "2 * 2 ^ j \<le> n" by simp
    moreover from ih(2) have "n < 2 * 2 ^ bitLength (n div 2)" by simp
    ultimately show ?thesis by (simp add: b j)
  qed
qed

lemma toDouble_large: assumes "2 ^ 53 < v" shows "2 ^ 53 \<le> toDouble v"
proof -
  define sh where "sh = bitLength v - 53"
  define q where "q = v div 2 ^ sh"
  define T where "T = (2::nat) ^ 52"
  have T2: "(2::nat) ^ 53 = 2 * T" by (simp add: T_def)
  from assms have pos: "0 < v" by (cases v) auto
  from bitLength_bounds [OF pos] have lo: "2 ^ (bitLength v - 1) \<le> v" and hi: "v < 2 ^ bitLength v"
    by simp_all
  have "(2::nat) ^ 53 < 2 ^ bitLength v" using assms hi by (rule less_trans)
  then have bl: "53 < bitLength v" by (rule power_less_imp_less_exp [rotated]) simp
  then have e: "bitLength v - 1 = 52 + sh" by (simp add: sh_def)
  have "T * 2 ^ sh \<le> v" using lo unfolding e power_add T_def .
  then have q: "T \<le> q" unfolding q_def by (simp add: less_eq_div_iff_mult_less_eq)
  have sh: "1 \<le> sh" using bl by (simp add: sh_def)
  have "(2::nat) ^ 1 \<le> 2 ^ sh" using sh by (intro power_increasing) simp_all
  then have "2 * T \<le> 2 ^ sh * T" by simp
  also have "\<dots> = T * 2 ^ sh" by (simp add: mult.commute)
  also have "\<dots> \<le> q * 2 ^ sh" using q by (rule mult_le_mono1)
  also have "\<dots> \<le> (if 2 ^ (sh - 1) < v mod 2 ^ sh \<or> (v mod 2 ^ sh = 2 ^ (sh - 1) \<and> odd q)
                   then q + 1 else q) * 2 ^ sh"
    by simp
  also have "\<dots> = toDouble v"
    using assms unfolding toDouble_def Let_def sh_def q_def by (simp only: not_le [symmetric] if_False)
  finally show ?thesis by (simp only: T2)
qed

lemma toDouble_safe: "toDouble v = x \<Longrightarrow> x < 2 ^ 53 \<Longrightarrow> v = x"
proof (cases "v \<le> 2 ^ 53")
  case True
  assume "toDouble v = x"
  with True show ?thesis by (simp add: toDouble_small)
next
  case False
  assume "toDouble v = x" and "x < 2 ^ 53"
  moreover from False have "2 ^ 53 \<le> toDouble v" by (intro toDouble_large) simp
  ultimately show ?thesis by simp
qed

lemma digitCandidate_Some:
  "digitCandidate x D k = Some s \<Longrightarrow> s < 10 ^ k \<and> toDouble (s * 10 ^ (D - k)) = x"
  by (auto simp: digitCandidate_def Let_def split: if_splits)

lemma in_map_filter: "t \<in> set (List.map_filter f xs) \<longleftrightarrow> (\<exists>x \<in> set xs. f x = Some t)"
  by (induction xs) (auto simp: List.map_filter_simps split: option.splits)

lemma shortestDigits_value:
  assumes "toDouble x = x" and "shortestDigits x = (s, k, n)"
  shows "k \<le> n" and "toDouble (s * 10 ^ (n - k)) = x"
    and "s * 10 ^ (n - k) \<le> 10 ^ length (decimal x)"
    and "n = length (decimal x) \<or> (n = Suc (length (decimal x)) \<and> toDouble (10 ^ length (decimal x)) = x)"
proof -
  let ?D = "length (decimal x)"
  let ?cands = "List.map_filter (\<lambda>k. map_option (\<lambda>s. (s, k)) (digitCandidate x ?D k)) [1..<Suc ?D]"
  have D: "0 < ?D" using decimal_nonempty [of x] by simp
  have sd: "shortestDigits x =
      (if toDouble (10 ^ ?D) = x then (1, 1, ?D + 1)
       else (case ?cands of [] \<Rightarrow> (x, ?D, ?D) | (s, k) # rest \<Rightarrow> (s, k, ?D)))"
    by (simp only: shortestDigits_def Let_def)
  have all: "k \<le> n \<and> toDouble (s * 10 ^ (n - k)) = x \<and> s * 10 ^ (n - k) \<le> 10 ^ ?D
      \<and> (n = ?D \<or> (n = Suc ?D \<and> toDouble (10 ^ ?D) = x))"
  proof (cases "toDouble (10 ^ ?D) = x")
    case True
    then have "shortestDigits x = (1, 1, ?D + 1)" by (simp only: sd simp_thms if_True)
    with assms(2) have "s = 1" "k = 1" "n = Suc ?D" by simp_all
    with True show ?thesis by simp
  next
    case False
    show ?thesis
    proof (cases ?cands)
      case Nil
      have "shortestDigits x = (x, ?D, ?D)" by (simp only: sd False if_False Nil list.case)
      with assms(2) have "s = x" "k = ?D" "n = ?D" by auto
      with assms(1) less_power_length [of x] show ?thesis by simp
    next
      case (Cons c rest)
      obtain s' k' where c: "c = (s', k')" by (cases c)
      have "shortestDigits x = (s', k', ?D)"
        by (simp only: sd False if_False Cons c list.case prod.case)
      with assms(2) have skn: "s = s'" "k = k'" "n = ?D" by simp_all
      have "(s', k') \<in> set ?cands" using Cons c by simp
      then obtain j where j: "j \<in> set [1..<Suc ?D]"
          and m: "map_option (\<lambda>s. (s, j)) (digitCandidate x ?D j) = Some (s', k')"
        unfolding in_map_filter by blast
      from m have jk: "j = k'" and dc: "digitCandidate x ?D k' = Some s'" by auto
      from j have "j \<in> {1..<Suc ?D}" by (simp only: set_upt)
      then have "j < Suc ?D" by (simp only: atLeastLessThan_iff)
      then have kD: "k' \<le> ?D" unfolding jk by (rule less_Suc_eq_le [THEN iffD1])
      from digitCandidate_Some [OF dc] have lt: "s' < 10 ^ k'"
        and r: "toDouble (s' * 10 ^ (?D - k')) = x" by simp_all
      have "s' * 10 ^ (?D - k') \<le> 10 ^ k' * 10 ^ (?D - k')"
        using lt by (intro mult_le_mono1) simp
      also have "\<dots> = 10 ^ ?D" using kD by (simp add: power_add [symmetric])
      finally have "s' * 10 ^ (?D - k') \<le> 10 ^ ?D" .
      with skn kD r show ?thesis by simp
    qed
  qed
  from all show "k \<le> n" and "toDouble (s * 10 ^ (n - k)) = x"
    and "s * 10 ^ (n - k) \<le> 10 ^ ?D"
    and "n = ?D \<or> (n = Suc ?D \<and> toDouble (10 ^ ?D) = x)"
    by simp_all
qed

lemma bitLength_21: "bitLength 1000000000000000000000 = 70"
  by (simp add: bitLength.simps)

lemma toDouble_21: "toDouble 1000000000000000000000 = 1000000000000000000000"
  by (simp add: toDouble_def bitLength_21 Let_def)

lemma overflow_above_21: "(10::nat) ^ 21 < 2 ^ 1024 - 2 ^ 970"
  by simp

lemma numberToString_plain:
  assumes d: "toDouble x = x" and pos: "0 < x" and lt: "x < 10 ^ 21"
  shows "\<exists>ds. numberToString (enat x) = ds \<and> ds \<noteq> [] \<and> (\<forall>c \<in> set ds. isDigit c)
     \<and> toCount (digitsValue ds) = enat x"
proof -
  obtain s k n where skn: "shortestDigits x = (s, k, n)" by (cases "shortestDigits x") auto
  let ?D = "length (decimal x)"
  note v = shortestDigits_value [OF d skn]
  have D: "?D \<le> 21" using lt by (intro decimal_length) simp_all
  have n: "n \<le> 21"
  proof (rule ccontr)
    assume "\<not> n \<le> 21"
    with v(4) D have "?D = 21" and "toDouble (10 ^ ?D) = x" by auto
    then have "x = 10 ^ 21" by (simp add: toDouble_21)
    with lt show False by simp
  qed
  let ?ds = "decimal s @ replicate (n - k) (CHR ''0'')"
  have str: "numberToString (enat x) = ?ds"
    using pos skn n by (simp add: numberToString_def renderDigits_def)
  have val: "digitsValue ?ds = s * 10 ^ (n - k)"
    by (simp add: digitsValue_append_zeros digitsValue_decimal)
  have "s * 10 ^ (n - k) \<le> 10 ^ 21"
  proof -
    have "s * 10 ^ (n - k) \<le> 10 ^ ?D" by (rule v(3))
    also have "\<dots> \<le> (10::nat) ^ 21" using D by (intro power_increasing) simp_all
    finally show ?thesis .
  qed
  then have "\<not> 2 ^ 1024 - 2 ^ 970 \<le> s * 10 ^ (n - k)"
    using overflow_above_21 by linarith
  then have "toCount (digitsValue ?ds) = enat x"
    unfolding val toCount_def by (simp only: if_False v(2))
  moreover have "\<forall>c \<in> set ?ds. isDigit c"
    using decimal_digits [of s] by (auto simp: isDigit_zero)
  moreover have "?ds \<noteq> []" by (simp add: decimal_nonempty)
  ultimately show ?thesis using str by blast
qed

lemma parse_format:
  assumes "toDouble x = x" and "x < 10 ^ 21"
  shows "parseOrderNumber (Some (formatOrderNumber (enat x))) = enat x"
proof (cases "x = 0")
  case True
  have "parseOrderNumber (Some (formatOrderNumber (enat 0)))
      = toCount (digitsValue ''0'')"
    unfolding formatOrderNumber_def
    by (subst parse_marked_digits [symmetric]) (simp_all add: numberToString_def isDigit_def)
  also have "\<dots> = enat 0" by (simp add: digitsValue_def toCount_def toDouble_def)
  finally show ?thesis using True by simp
next
  case False
  then have "0 < x" by simp
  from numberToString_plain [OF assms(1) this assms(2)]
  obtain ds where ds: "numberToString (enat x) = ds" "ds \<noteq> []" "\<forall>c \<in> set ds. isDigit c"
      "toCount (digitsValue ds) = enat x"
    by blast
  show ?thesis
    unfolding formatOrderNumber_def ds(1) parse_marked_digits [OF ds(3) ds(2)] by (rule ds(4))
qed

lemma numberToString_safe:
  assumes pos: "0 < x" and lt: "x < 2 ^ 53"
  shows "numberToString (enat x) = decimal x"
proof -
  obtain s k n where skn: "shortestDigits x = (s, k, n)" by (cases "shortestDigits x") auto
  let ?D = "length (decimal x)"
  have d: "toDouble x = x" using lt by (intro toDouble_small) simp
  note v = shortestDigits_value [OF d skn]
  have exact: "s * 10 ^ (n - k) = x" using v(2) lt by (rule toDouble_safe)
  have xlt: "x < 10 ^ ?D" by (rule less_power_length)
  have nD: "n = ?D"
  proof (rule ccontr)
    assume "n \<noteq> ?D"
    with v(4) have "toDouble (10 ^ ?D) = x" by auto
    then have "10 ^ ?D = x" using lt by (rule toDouble_safe)
    with xlt show False by simp
  qed
  have "x < 10 ^ 16" using lt by simp
  then have "?D \<le> 16" by (intro decimal_length) simp_all
  with nD have n: "n \<le> 21" by simp
  have s: "0 < s" using exact pos by (cases s) auto
  have "numberToString (enat x) = decimal s @ replicate (n - k) (CHR ''0'')"
    using pos skn n by (simp add: numberToString_def renderDigits_def)
  also have "\<dots> = decimal (s * 10 ^ (n - k))" using s by (simp add: decimal_shift)
  finally show ?thesis by (simp only: exact)
qed

lemma formatOrderNumber_safe:
  "0 < x \<Longrightarrow> x < 2 ^ 53 \<Longrightarrow>
     formatOrderNumber (enat x) = CHR ''#'' # padStart (decimal x) ORDER_NUMBER_PAD (CHR ''0'')"
  by (simp add: formatOrderNumber_def numberToString_safe)

lemma decimal_21: "decimal 1000000000000000000000 = ''1000000000000000000000''"
  by (simp add: decimal.simps digitChar_def)

lemma shortestDigits_21: "shortestDigits 1000000000000000000000 = (1, 1, 22)"
proof -
  let ?N = "1000000000000000000000 :: nat"
  let ?f = "\<lambda>k. map_option (\<lambda>s. (s, k)) (digitCandidate ?N 22 k)"
  have len: "length (decimal ?N) = 22" by (simp add: decimal_21)
  have b: "bitLength 10000000000000000000000 = 74" by (simp add: bitLength.simps)
  have t: "(toDouble (10 ^ 22) = ?N) = False" by (simp add: toDouble_def b Let_def)
  have c: "digitCandidate ?N 22 1 = Some 1"
    by (simp add: digitCandidate_def Let_def toDouble_21)
  have u: "[1..<Suc 22] = 1 # [2..<Suc 22]" by (simp add: upt_conv_Cons)
  have m: "List.map_filter ?f [1..<Suc 22] = (1, 1) # List.map_filter ?f [2..<Suc 22]"
    by (simp only: u List.map_filter_simps c option.map option.case)
  show ?thesis
    by (simp only: shortestDigits_def Let_def len t if_False m list.case prod.case)
qed

lemma formatOrderNumber_21: "formatOrderNumber (enat 1000000000000000000000) = ''#1e+21''"
  by (simp add: formatOrderNumber_def numberToString_def renderDigits_def shortestDigits_21
      decimal.simps digitChar_def padStart_def ORDER_NUMBER_PAD_def)

lemma parse_exponent: "parseOrderNumber (Some ''#1e+21'') = 1"
  by (simp add: parseOrderNumber_def matchDigits_def isDigit_def digitsToNumber_def
      digitsValue_def toCount_def toDouble_def one_enat_def)

lemma formatOrderNumber_inject:
  assumes "toDouble m = m" "m < 10 ^ 21" "toDouble n = n" "n < 10 ^ 21"
  shows "(formatOrderNumber (enat m) = formatOrderNumber (enat n)) = (m = n)"
proof
  assume "formatOrderNumber (enat m) = formatOrderNumber (enat n)"
  then have "parseOrderNumber (Some (formatOrderNumber (enat m)))
      = parseOrderNumber (Some (formatOrderNumber (enat n)))"
    by simp
  then show "m = n" by (simp only: parse_format [OF assms(1,2)] parse_format [OF assms(3,4)] enat.inject)
qed simp

lemma formatOrderNumber_padded:
  "n < 2 ^ 53 \<Longrightarrow> formatOrderNumber (enat n) = CHR ''#'' # paddedDigits n"
proof (cases "n = 0")
  case True
  then show ?thesis
    by (simp add: formatOrderNumber_def numberToString_def paddedDigits_def decimal.simps
        digitChar_def)
next
  case False
  assume "n < 2 ^ 53"
  with False show ?thesis by (simp add: formatOrderNumber_safe paddedDigits_def)
qed

lemma decimal_12345: "decimal 12345 = ''12345''"
  by (simp add: decimal.simps digitChar_def)

lemma formatOrderNumber_wide: "formatOrderNumber (enat 12345) = ''#12345''"
  by (simp add: formatOrderNumber_safe decimal_12345 padStart_def ORDER_NUMBER_PAD_def)

text \<open>
  Claim C10, as stated, fails: order numbers are JavaScript numbers, and from \<open>10^21\<close>
  on \<open>String\<close> prints them in exponent notation. The number \<open>10^21\<close> is formatted as
  \<open>#1e+21\<close>, which parses back to 1.
\<close>

theorem format_parse_exponent:
  "toDouble (10 ^ 21) = 10 ^ 21
   \<and> formatOrderNumber (enat (10 ^ 21)) = ''#1e+21''
   \<and> parseOrderNumber (Some (formatOrderNumber (enat (10 ^ 21)))) = 1
   \<and> parseOrderNumber (Some (formatOrderNumber (enat (10 ^ 21)))) \<noteq> enat (10 ^ 21)"
proof -
  have p: "parseOrderNumber (Some (formatOrderNumber (enat (10 ^ 21)))) = 1"
    by (simp add: formatOrderNumber_21 parse_exponent)
  have "(1::enat) \<noteq> enat (10 ^ 21)" by (simp add: one_enat_def)
  with p show ?thesis by (simp add: toDouble_21 formatOrderNumber_21)
qed

text \<open>
  Claim C10, amended. For every order number \<open>n\<close> below \<open>10^21\<close> (a non-negative
  integer that is a JavaScript number, as every integer up to \<open>2^53\<close> is), parsing the
  formatted number gives \<open>n\<close> back, also when \<open>n\<close> has more digits than the pad width;
  hence two different such numbers are never formatted alike. Below \<open>2^53\<close> the
  formatted number is the marker followed by the decimal numeral of \<open>n\<close>, padded with
  zeros to four digits.
\<close>

theorem format_parse_roundtrip:
  "(toDouble n = n \<and> n < 10 ^ 21 \<longrightarrow>
      parseOrderNumber (Some (formatOrderNumber (enat n))) = enat n)
   \<and> (n \<le> 2 ^ 53 \<longrightarrow> toDouble n = n \<and> n < 10 ^ 21)
   \<and> (toDouble m = m \<and> m < 10 ^ 21 \<and> toDouble n = n \<and> n < 10 ^ 21 \<longrightarrow>
        (formatOrderNumber (enat m) = formatOrderNumber (enat n)) = (m = n))
   \<and> (n < 2 ^ 53 \<longrightarrow>
        formatOrderNumber (enat n)
          = CHR ''#'' # padStart (decimal n) ORDER_NUMBER_PAD (CHR ''0''))"
proof (intro conjI impI)
  assume "toDouble n = n \<and> n < 10 ^ 21"
  then show "parseOrderNumber (Some (formatOrderNumber (enat n))) = enat n"
    by (simp add: parse_format)
next
  assume "n \<le> 2 ^ 53"
  then show "toDouble n = n" by (rule toDouble_small)
next
  assume "n \<le> 2 ^ 53"
  also have "(2::nat) ^ 53 < 10 ^ 21" by simp
  finally show "n < 10 ^ 21" .
next
  assume "toDouble m = m \<and> m < 10 ^ 21 \<and> toDouble n = n \<and> n < 10 ^ 21"
  then show "(formatOrderNumber (enat m) = formatOrderNumber (enat n)) = (m = n)"
    by (intro formatOrderNumber_inject) simp_all
next
  assume "n < 2 ^ 53"
  then show "formatOrderNumber (enat n)
      = CHR ''#'' # padStart (decimal n) ORDER_NUMBER_PAD (CHR ''0'')"
    by (simp add: formatOrderNumber_padded paddedDigits_def)
qed

theorem format_parse_roundtrip_witness:
  "toDouble 12345 = 12345 \<and> (12345::nat) < 10 ^ 21 \<and> (12345::nat) \<le> 2 ^ 53
   \<and> (12345::nat) < 2 ^ 53
   \<and> formatOrderNumber (enat 12345) = ''#12345''
   \<and> parseOrderNumber (Some ''#12345'') = enat 12345
   \<and> toDouble 7 = 7 \<and> (7::nat) < 10 ^ 21
   \<and> (formatOrderNumber (enat 7) = formatOrderNumber (enat 12345)) = ((7::nat) = 12345)"
proof -
  have a: "toDouble 12345 = 12345" "toDouble 7 = 7" by (simp_all add: toDouble_def)
  have b: "(12345::nat) < 10 ^ 21" "(7::nat) < 10 ^ 21" "(12345::nat) \<le> 2 ^ 53" by simp_all
  have c: "(12345::nat) < 2 ^ 53" by simp
  from format_parse_roundtrip [of 12345 7] a b c
  have 1: "parseOrderNumber (Some (formatOrderNumber (enat 12345))) = enat 12345"
    and 2: "(formatOrderNumber (enat 7) = formatOrderNumber (enat 12345)) = ((7::nat) = 12345)"
    and 3: "formatOrderNumber (enat 12345)
      = CHR ''#'' # padStart (decimal 12345) ORDER_NUMBER_PAD (CHR ''0'')"
    by blast+
  from 3 have 4: "formatOrderNumber (enat 12345) = ''#12345''"
    by (simp add: decimal_12345 padStart_def ORDER_NUMBER_PAD_def)
  from 1 have "parseOrderNumber (Some ''#12345'') = enat 12345"
    by (simp only: 4)
  with a b c 2 4 show ?thesis by (simp only: simp_thms)
qed

section \<open>Properties of the sequence allocator\<close>

lemma toCount_small: "v \<le> 2 ^ 53 \<Longrightarrow> toCount v = enat v"
proof -
  assume v: "v \<le> 2 ^ 53"
  have "(2::nat) ^ 53 < 2 ^ 1024 - 2 ^ 970" by simp
  with v have "\<not> 2 ^ 1024 - 2 ^ 970 \<le> v" by linarith
  then show ?thesis unfolding toCount_def by (simp only: if_False toDouble_small [OF v])
qed

lemma plusOne_small: "L < 2 ^ 53 \<Longrightarrow> plusOne (enat L) = enat (Suc L)"
  by (simp add: plusOne_def toCount_small)

lemma allocateTx_number: "fst (allocateTx c d) = plusOne (currentLast c d)"
  by (simp add: allocateTx_def currentLast_def parseOrderNumber_def Let_def split: option.splits)

lemma allocateTx_db:
  "fst (snd (allocateTx c d)) = d\<lparr>orderCounters := (orderCounters d)(c \<mapsto> plusOne (currentLast c d))\<rparr>"
  by (simp add: allocateTx_def currentLast_def parseOrderNumber_def Let_def split: option.splits)

lemma allocateTx_result:
  assumes "allocateTx c d = (n, d', ops)" and "currentLast c d = enat L" and "L < 2 ^ 53"
  shows "n = enat (Suc L)" and "d' = d\<lparr>orderCounters := (orderCounters d)(c \<mapsto> enat (Suc L))\<rparr>"
  using allocateTx_number [of c d] allocateTx_db [of c d] assms
  by (simp_all add: plusOne_small)

lemma currentLast_counter: "orderCounters d c = Some (enat n) \<Longrightarrow> currentLast c d = enat n"
  by (simp add: currentLast_def toNumberCount_def)

lemma orderCounters_stampOrder: "orderCounters (stampOrder r f d) = orderCounters d"
  by (simp add: stampOrder_def setMerge_def)

lemma orders_stampOrder:
  "orders (stampOrder r s d) c =
     (if fst r = c then mergeDoc (snd r) (\<lambda>doc. doc\<lparr>orderNumber := Some s\<rparr>) (orders d c)
      else orders d c)"
  by (simp add: stampOrder_def setMerge_def)

lemma map_filter_unnumbered:
  "\<forall>(i, doc) \<in> set docs. orderNumber doc = None \<Longrightarrow>
     List.map_filter (\<lambda>(i, doc). orderNumber doc) docs = []"
  by (induction docs) (auto simp: List.map_filter_simps)

lemma currentLast_unnumbered:
  "orderCounters d c = None \<Longrightarrow> \<forall>(i, doc) \<in> set (orders d c). orderNumber doc = None \<Longrightarrow>
     currentLast c d = 0"
  by (simp add: currentLast_def latestOrderNumber_def parseOrderNumber_def map_filter_unnumbered)

lemma upt_snoc: "[Suc L ..< Suc L + Suc k] = [Suc L ..< Suc L + k] @ [Suc L + k]"
  by simp

lemma run_numbers:
  assumes "run c c0 c1" and "c0 = (d0, {#}, [])" and "currentLast c d0 = enat L"
  shows "(case c1 of (d, pending, committed) \<Rightarrow>
           L + length committed \<le> 2 ^ 53 \<longrightarrow>
             committed = map enat [Suc L ..< Suc L + length committed]
             \<and> (committed = [] \<longrightarrow> d = d0 \<and> pending = {#})
             \<and> (committed \<noteq> [] \<longrightarrow> orderCounters d c = Some (enat (L + length committed))))"
  using assms
proof (induction rule: run.induct)
  case (start c0)
  then show ?case by simp
next
  case (commit c0 d pending committed n d' ops r)
  show ?case
  proof (simp only: prod.case, intro impI)
    assume b: "L + length (committed @ [n]) \<le> 2 ^ 53"
    then have b': "L + length committed \<le> 2 ^ 53" and lt: "L + length committed < 2 ^ 53"
      by simp_all
    from commit.IH [OF commit.prems] b'
    have com: "committed = map enat [Suc L ..< Suc L + length committed]"
      and emp: "committed = [] \<longrightarrow> d = d0 \<and> pending = {#}"
      and cnt: "committed \<noteq> [] \<longrightarrow> orderCounters d c = Some (enat (L + length committed))"
      by simp_all
    have l: "currentLast c d = enat (L + length committed)"
    proof (cases "committed = []")
      case True
      with emp commit.prems(2) show ?thesis by simp
    next
      case False
      with cnt show ?thesis by (simp add: currentLast_counter)
    qed
    from allocateTx_result [OF commit.hyps(2) l lt]
    have n: "n = enat (Suc (L + length committed))"
      and d': "d' = d\<lparr>orderCounters := (orderCounters d)(c \<mapsto> enat (Suc (L + length committed)))\<rparr>"
      by simp_all
    have a: "committed @ [n] = map enat ([Suc L ..< Suc L + length committed] @ [Suc L + length committed])"
      using com n by simp
    have b: "map enat [Suc L ..< Suc L + length (committed @ [n])]
        = map enat ([Suc L ..< Suc L + length committed] @ [Suc L + length committed])"
      by simp
    have 1: "committed @ [n] = map enat [Suc L ..< Suc L + length (committed @ [n])]"
      by (rule trans [OF a b [symmetric]])
    have 2: "orderCounters d' c = Some (enat (L + length (committed @ [n])))"
      by (simp add: d')
    have 3: "committed @ [n] \<noteq> []" by simp
    show "committed @ [n] = map enat [Suc L ..< Suc L + length (committed @ [n])]
        \<and> (committed @ [n] = [] \<longrightarrow> d' = d0 \<and> add_mset (r, formatOrderNumber n) pending = {#})
        \<and> (committed @ [n] \<noteq> [] \<longrightarrow>
             orderCounters d' c = Some (enat (L + length (committed @ [n]))))"
      using 1 2 3 by blast
  qed
next
  case (stamp c0 d pending committed r formatted)
  from stamp.IH [OF stamp.prems] stamp.hyps(2)
  show ?case by (auto simp: orderCounters_stampOrder)
qed

lemma assignedNumbers_Cons:
  "assignedNumbers ((i, doc) # docs) =
     (if parseOrderNumber (orderNumber doc) = 0 then assignedNumbers docs
      else parseOrderNumber (orderNumber doc) # assignedNumbers docs)"
  by (simp add: assignedNumbers_def)

lemma assignedNumbers_mergeDoc:
  "mset (assignedNumbers (mergeDoc i (\<lambda>doc. doc\<lparr>orderNumber := Some s\<rparr>) docs))
     \<subseteq># add_mset (parseOrderNumber (Some s)) (mset (assignedNumbers docs))"
proof (induction docs)
  case Nil
  show ?case by (simp add: assignedNumbers_def)
next
  case (Cons p docs)
  obtain j doc where p: "p = (j, doc)" by (cases p)
  show ?case
  proof (cases "i = j")
    case True
    then show ?thesis
      by (simp add: p assignedNumbers_Cons)
  next
    case False
    with Cons.IH show ?thesis
      by (simp add: p assignedNumbers_Cons add_mset_commute)
  qed
qed

lemma distinct_mset_subset: "mset xs \<subseteq># mset ys \<Longrightarrow> distinct ys \<Longrightarrow> distinct xs"
proof -
  assume s: "mset xs \<subseteq># mset ys" and d: "distinct ys"
  have "\<And>a. count (mset xs) a \<le> 1"
  proof -
    fix a
    have "count (mset xs) a \<le> count (mset ys) a" using s by (rule mset_subset_eq_count)
    also have "\<dots> \<le> 1" using d by (simp add: distinct_count_atmost_1)
    finally show "count (mset xs) a \<le> 1" .
  qed
  then have c: "\<And>a. count (mset xs) a \<le> 1" .
  show ?thesis
    unfolding distinct_count_atmost_1
  proof (intro allI)
    fix a
    show "count (mset xs) a = (if a \<in> set xs then 1 else 0)"
    proof (cases "a \<in> set xs")
      case True
      then have "0 < count (mset xs) a" by simp
      with c [of a] have "count (mset xs) a = 1" by linarith
      with True show ?thesis by (simp only: if_True)
    next
      case False
      then show ?thesis by (simp add: count_eq_zero_iff)
    qed
  qed
qed

lemma orders_allocateTx:
  "allocateTx c d = (n, d', ops) \<Longrightarrow> orders d' = orders d"
  using allocateTx_db [of c d] by simp

lemma parse_format_small:
  "m \<le> 2 ^ 53 \<Longrightarrow> parseOrderNumber (Some (formatOrderNumber (enat m))) = enat m"
proof -
  assume m: "m \<le> 2 ^ 53"
  have "(2::nat) ^ 53 < 10 ^ 21" by simp
  with m have "m < 10 ^ 21" by linarith
  with toDouble_small [OF m] show ?thesis by (rule parse_format)
qed

lemma run_records:
  assumes "run c c0 c1" and "c0 = (d0, {#}, [])" and "currentLast c d0 = enat L"
  shows "(case c1 of (d, pending, committed) \<Rightarrow>
           L + length committed \<le> 2 ^ 53 \<longrightarrow>
             (\<forall>p \<in># pending. fst (fst p) = c)
             \<and> image_mset (\<lambda>p. parseOrderNumber (Some (snd p))) pending
                 + mset (assignedNumbers (orders d c))
               \<subseteq># mset (assignedNumbers (orders d0 c)) + mset committed)"
  using assms
proof (induction rule: run.induct)
  case (start c0)
  then show ?case by simp
next
  case (commit c0 d pending committed n d' ops r)
  show ?case
  proof (simp only: prod.case, intro impI)
    assume b: "L + length (committed @ [n]) \<le> 2 ^ 53"
    then have b': "L + length committed \<le> 2 ^ 53" and lt: "L + length committed < 2 ^ 53"
      by simp_all
    from commit.IH [OF commit.prems] b'
    have refs: "\<forall>p \<in># pending. fst (fst p) = c"
      and sub: "image_mset (\<lambda>p. parseOrderNumber (Some (snd p))) pending
                 + mset (assignedNumbers (orders d c))
               \<subseteq># mset (assignedNumbers (orders d0 c)) + mset committed"
      by simp_all
    from run_numbers [OF commit.hyps(1) commit.prems] b'
    have emp: "committed = [] \<longrightarrow> d = d0 \<and> pending = {#}"
      and cnt: "committed \<noteq> [] \<longrightarrow> orderCounters d c = Some (enat (L + length committed))"
      by simp_all
    have l: "currentLast c d = enat (L + length committed)"
    proof (cases "committed = []")
      case True
      with emp commit.prems(2) show ?thesis by simp
    next
      case False
      with cnt show ?thesis by (simp add: currentLast_counter)
    qed
    from allocateTx_result(1) [OF commit.hyps(2) l lt]
    have n: "n = enat (Suc (L + length committed))" .
    from lt have "Suc (L + length committed) \<le> 2 ^ 53" by simp
    then have p: "parseOrderNumber (Some (formatOrderNumber n)) = n"
      unfolding n by (rule parse_format_small)
    have o: "orders d' c = orders d c"
      using orders_allocateTx [OF commit.hyps(2)] by simp
    show "(\<forall>p \<in># add_mset (r, formatOrderNumber n) pending. fst (fst p) = c)
        \<and> image_mset (\<lambda>p. parseOrderNumber (Some (snd p))) (add_mset (r, formatOrderNumber n) pending)
            + mset (assignedNumbers (orders d' c))
          \<subseteq># mset (assignedNumbers (orders d0 c)) + mset (committed @ [n])"
      using refs sub commit.hyps(3) by (simp add: p o)
  qed
next
  case (stamp c0 d pending committed r formatted)
  show ?case
  proof (simp only: prod.case, intro impI)
    assume b: "L + length committed \<le> 2 ^ 53"
    from stamp.IH [OF stamp.prems] b
    have refs: "\<forall>p \<in># pending. fst (fst p) = c"
      and sub: "image_mset (\<lambda>p. parseOrderNumber (Some (snd p))) pending
                 + mset (assignedNumbers (orders d c))
               \<subseteq># mset (assignedNumbers (orders d0 c)) + mset committed"
      by simp_all
    from refs stamp.hyps(2) have r: "fst r = c" by auto
    have pend: "pending = add_mset (r, formatted) (pending - {#(r, formatted)#})"
      using stamp.hyps(2) by simp
    have 1: "\<forall>p \<in># pending - {#(r, formatted)#}. fst (fst p) = c"
      using refs by (meson in_diffD)
    have "image_mset (\<lambda>p. parseOrderNumber (Some (snd p))) (pending - {#(r, formatted)#})
            + mset (assignedNumbers (orders (stampOrder r formatted d) c))
          \<subseteq># image_mset (\<lambda>p. parseOrderNumber (Some (snd p))) (pending - {#(r, formatted)#})
            + add_mset (parseOrderNumber (Some formatted)) (mset (assignedNumbers (orders d c)))"
      using assignedNumbers_mergeDoc [of "snd r" formatted "orders d c"]
      by (simp add: orders_stampOrder r)
    also have "\<dots> = image_mset (\<lambda>p. parseOrderNumber (Some (snd p))) pending
            + mset (assignedNumbers (orders d c))"
      by (subst (2) pend) simp
    finally have 2: "image_mset (\<lambda>p. parseOrderNumber (Some (snd p))) (pending - {#(r, formatted)#})
            + mset (assignedNumbers (orders (stampOrder r formatted d) c))
          \<subseteq># mset (assignedNumbers (orders d0 c)) + mset committed"
      using sub by (rule subset_mset.order_trans)
    from 1 2 show "(\<forall>p \<in># pending - {#(r, formatted)#}. fst (fst p) = c)
        \<and> image_mset (\<lambda>p. parseOrderNumber (Some (snd p))) (pending - {#(r, formatted)#})
            + mset (assignedNumbers (orders (stampOrder r formatted d) c))
          \<subseteq># mset (assignedNumbers (orders d0 c)) + mset committed"
      by (rule conjI)
  qed
qed

lemma bitLength_2_53: "bitLength 9007199254740993 = 54"
  by (simp add: bitLength.simps)

lemma toDouble_2_53_1: "toDouble 9007199254740993 = 9007199254740992"
  by (simp add: toDouble_def bitLength_2_53 Let_def)

lemma plusOne_0_1:
  "plusOne (enat 0) = enat 1" "plusOne (enat (Suc 0)) = enat 2"
  by (simp_all add: plusOne_def toCount_small)

lemma plusOne_saturated:
  "plusOne (enat 9007199254740991) = enat 9007199254740992"
  "plusOne (enat 9007199254740992) = enat 9007199254740992"
  by (simp_all add: plusOne_def toCount_def toDouble_2_53_1) (simp add: toDouble_def)

lemma decimal_2_53: "decimal 9007199254740992 = ''9007199254740992''"
  by (simp add: decimal.simps digitChar_def)

lemma upt_16: "[1..<Suc 16] = [1,2,3,4,5,6,7,8,9,10,11,12,13,14,15,16]"
  by (simp add: upt_rec)

lemma shortestDigits_2_53: "shortestDigits 9007199254740992 = (9007199254740992, 16, 16)"
  by (simp add: shortestDigits_def decimal_2_53 Let_def upt_16 List.map_filter_simps
      digitCandidate_def toDouble_def bitLength.simps)

lemma formatOrderNumber_2_53: "formatOrderNumber (enat 9007199254740992) = ''#9007199254740992''"
  by (simp add: formatOrderNumber_def numberToString_def renderDigits_def shortestDigits_2_53
      decimal_2_53 padStart_def ORDER_NUMBER_PAD_def)

lemma parse_2_53: "parseOrderNumber (Some ''#9007199254740992'') = enat 9007199254740992"
proof -
  have "parseOrderNumber (Some (formatOrderNumber (enat 9007199254740992))) = enat 9007199254740992"
    by (rule parse_format_small) simp
  then show ?thesis by (simp only: formatOrderNumber_2_53)
qed

lemma formatOrderNumber_1_2_3:
  "formatOrderNumber (enat 1) = ''#0001''"
  "formatOrderNumber (enat 2) = ''#0002''"
  "formatOrderNumber (enat 3) = ''#0003''"
  by (simp_all add: formatOrderNumber_safe decimal.simps digitChar_def padStart_def
      ORDER_NUMBER_PAD_def numeral_3_eq_3)

lemma assignOrderNumber_saturated:
  "assignOrderNumber ''eggOrders'' (''eggOrders'', ''a'') saturatedStore
     = (''#9007199254740992'',
        stampOrder (''eggOrders'', ''a'') ''#9007199254740992''
          (saturatedStore\<lparr>orderCounters := [''eggOrders'' \<mapsto> enat 9007199254740992]\<rparr>),
        [TxGetCounter ''eggOrders'', TxSetCounter ''eggOrders'' (enat 9007199254740992),
         SetOrderNumber (''eggOrders'', ''a'') ''#9007199254740992''])"
  by (simp add: assignOrderNumber_def allocateTx_def saturatedStore_def emptyStore_def
      toNumberCount_def plusOne_saturated formatOrderNumber_2_53 Let_def)

lemma latestOrderNumber_legacyStore: "latestOrderNumber (orders legacyStore ''eggOrders'') = Some ''9''"
  by (simp add: latestOrderNumber_def legacyStore_def emptyStore_def emptyDoc_def
      List.map_filter_simps)

lemma parseOrderNumber_literals:
  "parseOrderNumber (Some ''9'') = 9" "parseOrderNumber (Some ''10'') = 10"
  "parseOrderNumber (Some ''#0010'') = 10"
  by (simp_all add: parseOrderNumber_def matchDigits_def isDigit_def digitsToNumber_def
      digitsValue_def toCount_small numeral_eq_enat)

lemma formatOrderNumber_ten: "formatOrderNumber 10 = ''#0010''"
proof -
  have "formatOrderNumber (enat 10)
      = CHR ''#'' # padStart (decimal 10) ORDER_NUMBER_PAD (CHR ''0'')"
    by (rule formatOrderNumber_safe) simp_all
  then have "formatOrderNumber (enat 10) = ''#0010''"
    by (simp add: decimal.simps digitChar_def padStart_def ORDER_NUMBER_PAD_def numeral_2_eq_2)
  then show ?thesis by (simp add: numeral_eq_enat)
qed

lemma currentLast_legacyStore: "currentLast ''eggOrders'' legacyStore = 9"
proof -
  have "orderCounters legacyStore ''eggOrders'' = None"
    by (simp add: legacyStore_def emptyStore_def)
  then show ?thesis
    by (simp add: currentLast_def latestOrderNumber_legacyStore parseOrderNumber_literals)
qed

lemma assignOrderNumber_number:
  "fst (assignOrderNumber c r d) = formatOrderNumber (plusOne (currentLast c d))"
  using allocateTx_number [of c d]
  by (cases "allocateTx c d") (simp add: assignOrderNumber_def Let_def)

lemma assignOrderNumber_db:
  "fst (snd (assignOrderNumber c r d))
     = stampOrder r (fst (assignOrderNumber c r d)) (fst (snd (allocateTx c d)))"
  by (cases "allocateTx c d") (simp add: assignOrderNumber_def Let_def)

lemma assignOrderNumber_legacyStore:
  "fst (assignOrderNumber ''eggOrders'' (''eggOrders'', ''c'') legacyStore) = ''#0010''"
proof -
  have "plusOne 9 = 10"
    using plusOne_small [of 9] by (simp add: numeral_eq_enat)
  then show ?thesis
    by (simp add: assignOrderNumber_number currentLast_legacyStore formatOrderNumber_ten)
qed

lemma run_assignOrderNumber:
  assumes "run c c0 (d, pending, committed)" and "fst r = c"
  shows "run c c0 (fst (snd (assignOrderNumber c r d)), pending,
           committed @ [fst (allocateTx c d)])"
proof -
  obtain n d' ops where tx: "allocateTx c d = (n, d', ops)" by (cases "allocateTx c d")
  from run.commit [OF assms(1) tx assms(2)]
  have 1: "run c c0 (d', add_mset (r, formatOrderNumber n) pending, committed @ [n])" .
  have "(r, formatOrderNumber n) \<in># add_mset (r, formatOrderNumber n) pending" by simp
  from run.stamp [OF 1 this]
  have "run c c0 (stampOrder r (formatOrderNumber n) d', pending, committed @ [n])" by simp
  then show ?thesis by (simp add: assignOrderNumber_def tx Let_def)
qed

lemma map_of_mergeDoc:
  "map_option orderNumber (map_of (mergeDoc i (\<lambda>doc. doc\<lparr>orderNumber := Some s\<rparr>) docs) i)
     = Some (Some s)"
  by (induction docs) auto

lemma sorted_committed: "sorted_wrt (<) (map enat [m ..< n])"
  by (simp add: sorted_wrt_map)

lemma distinct_committed: "distinct (map enat [m ..< n])"
  by (simp add: distinct_map inj_on_def)

lemma run_trans: "run c c1 c2 \<Longrightarrow> run c c0 c1 \<Longrightarrow> run c c0 c2"
proof (induction rule: run.induct)
  case (start c1)
  then show ?case .
next
  case (commit c1 d pending committed n d' ops r)
  from run.commit [OF commit.IH [OF commit.prems] commit.hyps(2,3)] show ?case .
next
  case (stamp c1 d pending committed r formatted)
  from run.stamp [OF stamp.IH [OF stamp.prems] stamp.hyps(2)] show ?case .
qed

lemma run_extends:
  "run c c1 c2 \<Longrightarrow> take (length (snd (snd c1))) (snd (snd c2)) = snd (snd c1)
     \<and> length (snd (snd c1)) \<le> length (snd (snd c2))"
  by (induction rule: run.induct) auto

lemma run_currentLast:
  assumes "run c (d, {#}, []) (d', pending, committed)" and "currentLast c d = enat L"
    and "L + length committed \<le> 2 ^ 53"
  shows "currentLast c d' = enat (L + length committed)"
proof -
  from run_numbers [OF assms(1) refl assms(2)] assms(3)
  have emp: "committed = [] \<longrightarrow> d' = d \<and> pending = {#}"
    and cnt: "committed \<noteq> [] \<longrightarrow> orderCounters d' c = Some (enat (L + length committed))"
    by simp_all
  show ?thesis
  proof (cases "committed = []")
    case True
    with emp assms(2) show ?thesis by simp
  next
    case False
    with cnt show ?thesis by (simp add: currentLast_counter)
  qed
qed

text \<open>
  Claim C1, as stated, fails in two ways. Counter values are JavaScript numbers: when
  the counter stands at \<open>2^53 - 1\<close> the first allocation returns \<open>2^53\<close>, and the second
  computes \<open>2^53 + 1\<close>, which rounds to \<open>2^53\<close>, so two orders of the stream receive the
  number \<open>#9007199254740992\<close> and the committed numbers do not increase. And on a stream
  without a counter whose records carry the numbers 9 and 10, the allocation starts from
  9, so the new order receives the number 10 a second time.
\<close>

theorem allocator_repeats_number:
  "(let (s1, d1, ops1) = assignOrderNumber ''eggOrders'' (''eggOrders'', ''a'') saturatedStore;
        (s2, d2, ops2) = assignOrderNumber ''eggOrders'' (''eggOrders'', ''b'') d1
    in s1 = ''#9007199254740992'' \<and> s2 = ''#9007199254740992''
       \<and> run ''eggOrders'' (saturatedStore, {#}, [])
            (d2, {#}, [enat 9007199254740992, enat 9007199254740992])
       \<and> map (\<lambda>p. orderNumber (snd p)) (orders d2 ''eggOrders'')
            = [Some ''#9007199254740992'', Some ''#9007199254740992'']
       \<and> assignedNumbers (orders d2 ''eggOrders'')
            = [enat 9007199254740992, enat 9007199254740992])
   \<and> assignedNumbers (orders (fst (snd (assignOrderNumber ''eggOrders'' (''eggOrders'', ''c'')
         legacyStore))) ''eggOrders'') = [9, 10, 10]"
proof -
  let ?c = "''eggOrders''"
  let ?s = "''#9007199254740992''"
  let ?d1 = "fst (snd (assignOrderNumber ?c (?c, ''a'') saturatedStore))"
  let ?d2 = "fst (snd (assignOrderNumber ?c (?c, ''b'') ?d1))"
  have l0: "currentLast ?c saturatedStore = enat 9007199254740991"
    by (simp add: currentLast_def saturatedStore_def emptyStore_def toNumberCount_def)
  have s1: "fst (assignOrderNumber ?c (?c, ''a'') saturatedStore) = ?s"
    by (simp only: assignOrderNumber_number l0 plusOne_saturated formatOrderNumber_2_53)
  have c1: "orderCounters ?d1 ?c = Some (enat 9007199254740992)"
    by (simp add: assignOrderNumber_db orderCounters_stampOrder allocateTx_db l0
        plusOne_saturated)
  then have l1: "currentLast ?c ?d1 = enat 9007199254740992"
    by (rule currentLast_counter)
  have s2: "fst (assignOrderNumber ?c (?c, ''b'') ?d1) = ?s"
    by (simp only: assignOrderNumber_number l1 plusOne_saturated formatOrderNumber_2_53)
  have r0: "run ?c (saturatedStore, {#}, []) (saturatedStore, {#}, [])" by (rule run.start)
  have r1: "run ?c (saturatedStore, {#}, []) (?d1, {#}, [enat 9007199254740992])"
    using run_assignOrderNumber [OF r0, of "(?c, ''a'')"]
    by (simp add: allocateTx_number l0 plusOne_saturated)
  have r2: "run ?c (saturatedStore, {#}, [])
      (?d2, {#}, [enat 9007199254740992, enat 9007199254740992])"
    using run_assignOrderNumber [OF r1, of "(?c, ''b'')"]
    by (simp add: allocateTx_number l1 plusOne_saturated)
  have d1: "?d1 = stampOrder (?c, ''a'') ?s (fst (snd (allocateTx ?c saturatedStore)))"
    by (simp only: assignOrderNumber_db s1)
  have o1: "orders ?d1 ?c = [(''a'', emptyDoc\<lparr>orderNumber := Some ?s\<rparr>)]"
    by (subst d1) (simp add: orders_stampOrder allocateTx_db saturatedStore_def emptyStore_def)
  have d2: "?d2 = stampOrder (?c, ''b'') ?s (fst (snd (allocateTx ?c ?d1)))"
    using assignOrderNumber_db [of ?c "(?c, ''b'')" ?d1] by (simp only: s2)
  have o2: "orders ?d2 ?c = [(''a'', emptyDoc\<lparr>orderNumber := Some ?s\<rparr>),
      (''b'', emptyDoc\<lparr>orderNumber := Some ?s\<rparr>)]"
    by (subst d2) (simp add: orders_stampOrder allocateTx_db o1)
  have m2: "map (\<lambda>p. orderNumber (snd p)) (orders ?d2 ?c) = [Some ?s, Some ?s]"
    by (simp add: o2)
  have a2: "assignedNumbers (orders ?d2 ?c) = [enat 9007199254740992, enat 9007199254740992]"
    by (simp add: o2 assignedNumbers_def parse_2_53 zero_enat_def)
  let ?d3 = "fst (snd (assignOrderNumber ?c (?c, ''c'') legacyStore))"
  have d3: "?d3 = stampOrder (?c, ''c'') ''#0010'' (fst (snd (allocateTx ?c legacyStore)))"
    by (simp only: assignOrderNumber_db assignOrderNumber_legacyStore)
  have "orders ?d3 ?c = [(''a'', emptyDoc\<lparr>orderNumber := Some ''9''\<rparr>),
      (''b'', emptyDoc\<lparr>orderNumber := Some ''10''\<rparr>),
      (''c'', emptyDoc\<lparr>orderNumber := Some ''#0010''\<rparr>)]"
    by (subst d3) (simp add: orders_stampOrder allocateTx_db legacyStore_def emptyStore_def)
  then have a3: "assignedNumbers (orders ?d3 ?c) = [9, 10, 10]"
    by (simp add: assignedNumbers_def parseOrderNumber_literals)
  from s1 s2 r2 m2 a2 a3 show ?thesis
    by (simp only: Let_def split_beta fst_conv snd_conv simp_thms)
qed

text \<open>
  Claim C1, amended. The counter transactions are atomic and commit in some order; the
  number is written onto the order at any later time. From a store whose next allocation
  starts from \<open>L\<close>, and as long as the numbers stay at or below \<open>2^53\<close>: the committed
  numbers are \<open>L + 1, L + 2, \<dots>\<close> in commit order, so they strictly increase and no two
  are equal; the counter holds the last committed number, and further steps only append
  to the committed numbers, so the counter never decreases; the next
  allocation returns the counter plus one and writes it back, and \<open>assignOrderNumber\<close>
  writes the formatted number onto its order; a record of the stream carries only a
  number it carried at the start or a committed one; if the numbers on the records were
  pairwise distinct and at most \<open>L\<close> at the start, no two records of the stream carry
  the same number at any time; and on a stream with no counter and no numbered record the
  committed numbers are exactly \<open>1, \<dots>, N\<close>.
\<close>

theorem allocator_unique_monotone:
  assumes "run c (d, {#}, []) (d', pending, committed)"
    and "currentLast c d = enat L"
    and "L + length committed \<le> 2 ^ 53"
  shows "committed = map enat [Suc L ..< Suc L + length committed]
    \<and> distinct committed \<and> sorted_wrt (<) committed
    \<and> currentLast c d' = enat (L + length committed)
    \<and> (committed \<noteq> [] \<longrightarrow> orderCounters d' c = Some (last committed))
    \<and> (run c (d', pending, committed) (d'', pending', committed')
         \<and> L + length committed' \<le> 2 ^ 53 \<longrightarrow>
         take (length committed) committed' = committed
         \<and> currentLast c d' \<le> currentLast c d'')
    \<and> (L + length committed < 2 ^ 53 \<longrightarrow>
         fst (allocateTx c d') = enat (Suc (L + length committed))
         \<and> orderCounters (fst (snd (allocateTx c d'))) c = Some (enat (Suc (L + length committed))))
    \<and> (L + length committed < 2 ^ 53 \<and> fst r = c \<longrightarrow>
         fst (assignOrderNumber c r d') = formatOrderNumber (enat (Suc (L + length committed)))
         \<and> parseOrderNumber (Some (fst (assignOrderNumber c r d')))
             = enat (Suc (L + length committed))
         \<and> map_option orderNumber (map_of (orders (fst (snd (assignOrderNumber c r d'))) c) (snd r))
             = Some (Some (fst (assignOrderNumber c r d'))))
    \<and> set (assignedNumbers (orders d' c)) \<subseteq> set (assignedNumbers (orders d c)) \<union> set committed
    \<and> (distinct (assignedNumbers (orders d c))
         \<and> (\<forall>x \<in> set (assignedNumbers (orders d c)). x \<le> enat L) \<longrightarrow>
         distinct (assignedNumbers (orders d' c)))
    \<and> (orderCounters d c = None \<and> (\<forall>p \<in> set (orders d c). orderNumber (snd p) = None) \<longrightarrow>
         committed = map enat [1 ..< Suc (length committed)]
         \<and> distinct (assignedNumbers (orders d' c)))"
proof -
  let ?k = "length committed"
  from run_numbers [OF assms(1) refl assms(2)] assms(3)
  have com: "committed = map enat [Suc L ..< Suc L + ?k]"
    and emp: "committed = [] \<longrightarrow> d' = d \<and> pending = {#}"
    and cnt: "committed \<noteq> [] \<longrightarrow> orderCounters d' c = Some (enat (L + ?k))"
    by simp_all
  from run_records [OF assms(1) refl assms(2)] assms(3)
  have sub: "image_mset (\<lambda>p. parseOrderNumber (Some (snd p))) pending
                 + mset (assignedNumbers (orders d' c))
               \<subseteq># mset (assignedNumbers (orders d c)) + mset committed"
    by simp
  have dis: "distinct committed" by (subst com) (rule distinct_committed)
  have srt: "sorted_wrt (<) committed" by (subst com) (rule sorted_committed)
  have l: "currentLast c d' = enat (L + ?k)"
    by (rule run_currentLast [OF assms])
  have mono: "run c (d', pending, committed) (d'', pending', committed')
         \<and> L + length committed' \<le> 2 ^ 53 \<longrightarrow>
         take (length committed) committed' = committed
         \<and> currentLast c d' \<le> currentLast c d''"
  proof (intro impI, elim conjE)
    assume r: "run c (d', pending, committed) (d'', pending', committed')"
      and b: "L + length committed' \<le> 2 ^ 53"
    from run_extends [OF r]
    have t: "take (length committed) committed' = committed"
      and le: "length committed \<le> length committed'" by simp_all
    from run_trans [OF r assms(1)]
    have "run c (d, {#}, []) (d'', pending', committed')" .
    from run_currentLast [OF this assms(2) b]
    have "currentLast c d'' = enat (L + length committed')" .
    with l le have "currentLast c d' \<le> currentLast c d''" by simp
    with t show "take (length committed) committed' = committed
         \<and> currentLast c d' \<le> currentLast c d''" by (intro conjI)
  qed
  have lst: "committed \<noteq> [] \<longrightarrow> orderCounters d' c = Some (last committed)"
  proof
    assume ne: "committed \<noteq> []"
    then have k: "Suc L < Suc L + ?k" by (cases committed) simp_all
    from ne have ne': "[Suc L ..< Suc L + ?k] \<noteq> []" by (cases committed) simp_all
    from k have "last [Suc L ..< Suc L + ?k] = Suc L + ?k - 1" by (rule last_upt)
    then have u: "last [Suc L ..< Suc L + ?k] = L + ?k" by simp
    have "last committed = last (map enat [Suc L ..< Suc L + ?k])" by (rule arg_cong [OF com])
    also have "\<dots> = enat (last [Suc L ..< Suc L + ?k])" using ne' by (rule last_map)
    also have "\<dots> = enat (L + ?k)" by (simp only: u)
    finally show "orderCounters d' c = Some (last committed)" using cnt ne by simp
  qed
  have nxt: "L + ?k < 2 ^ 53 \<longrightarrow>
         fst (allocateTx c d') = enat (Suc (L + ?k))
         \<and> orderCounters (fst (snd (allocateTx c d'))) c = Some (enat (Suc (L + ?k)))"
    by (simp add: allocateTx_number allocateTx_db l plusOne_small)
  have asg: "L + ?k < 2 ^ 53 \<and> fst r = c \<longrightarrow>
         fst (assignOrderNumber c r d') = formatOrderNumber (enat (Suc (L + ?k)))
         \<and> parseOrderNumber (Some (fst (assignOrderNumber c r d'))) = enat (Suc (L + ?k))
         \<and> map_option orderNumber (map_of (orders (fst (snd (assignOrderNumber c r d'))) c) (snd r))
             = Some (Some (fst (assignOrderNumber c r d')))"
  proof (intro impI, elim conjE)
    assume lt: "L + ?k < 2 ^ 53" and r: "fst r = c"
    have 1: "fst (assignOrderNumber c r d') = formatOrderNumber (enat (Suc (L + ?k)))"
      by (simp add: assignOrderNumber_number l plusOne_small [OF lt])
    from lt have "Suc (L + ?k) \<le> 2 ^ 53" by simp
    then have 2: "parseOrderNumber (Some (fst (assignOrderNumber c r d'))) = enat (Suc (L + ?k))"
      unfolding 1 by (rule parse_format_small)
    have 3: "map_option orderNumber
        (map_of (orders (fst (snd (assignOrderNumber c r d'))) c) (snd r))
        = Some (Some (fst (assignOrderNumber c r d')))"
      by (simp add: assignOrderNumber_db [of c r d'] orders_stampOrder r map_of_mergeDoc)
    from 1 2 3 show "fst (assignOrderNumber c r d') = formatOrderNumber (enat (Suc (L + ?k)))
         \<and> parseOrderNumber (Some (fst (assignOrderNumber c r d'))) = enat (Suc (L + ?k))
         \<and> map_option orderNumber (map_of (orders (fst (snd (assignOrderNumber c r d'))) c) (snd r))
             = Some (Some (fst (assignOrderNumber c r d')))"
      by (intro conjI)
  qed
  have sub': "mset (assignedNumbers (orders d' c))
      \<subseteq># mset (assignedNumbers (orders d c) @ committed)"
  proof -
    have "mset (assignedNumbers (orders d' c))
        \<subseteq># image_mset (\<lambda>p. parseOrderNumber (Some (snd p))) pending
             + mset (assignedNumbers (orders d' c))"
      by (rule mset_subset_eq_add_right)
    from this sub have "mset (assignedNumbers (orders d' c))
        \<subseteq># mset (assignedNumbers (orders d c)) + mset committed"
      by (rule subset_mset.order_trans)
    then show ?thesis by simp
  qed
  have inc: "set (assignedNumbers (orders d' c))
      \<subseteq> set (assignedNumbers (orders d c)) \<union> set committed"
    using set_mset_mono [OF sub'] by simp
  have above: "\<forall>x \<in> set committed. enat L < x"
    by (subst com) auto
  have uni: "distinct (assignedNumbers (orders d c))
         \<and> (\<forall>x \<in> set (assignedNumbers (orders d c)). x \<le> enat L) \<longrightarrow>
         distinct (assignedNumbers (orders d' c))"
  proof (intro impI, elim conjE)
    assume d0: "distinct (assignedNumbers (orders d c))"
      and b0: "\<forall>x \<in> set (assignedNumbers (orders d c)). x \<le> enat L"
    from b0 above have "set (assignedNumbers (orders d c)) \<inter> set committed = {}"
      by fastforce
    with d0 dis have "distinct (assignedNumbers (orders d c) @ committed)" by simp
    with sub' show "distinct (assignedNumbers (orders d' c))" by (rule distinct_mset_subset)
  qed
  have fresh: "orderCounters d c = None \<and> (\<forall>p \<in> set (orders d c). orderNumber (snd p) = None) \<longrightarrow>
         committed = map enat [1 ..< Suc (length committed)]
         \<and> distinct (assignedNumbers (orders d' c))"
  proof (intro impI, elim conjE)
    assume c0: "orderCounters d c = None"
      and n0: "\<forall>p \<in> set (orders d c). orderNumber (snd p) = None"
    from n0 have n1: "\<forall>(i, doc) \<in> set (orders d c). orderNumber doc = None" by auto
    from currentLast_unnumbered [OF c0 n1] assms(2) have L: "L = 0"
      by (simp add: zero_enat_def)
    have a0: "assignedNumbers (orders d c) = []"
      using n0 by (auto simp: assignedNumbers_def parseOrderNumber_def filter_empty_conv)
    with uni have "distinct (assignedNumbers (orders d' c))" by simp
    moreover from com L have "committed = map enat [1 ..< Suc (length committed)]" by simp
    ultimately show "committed = map enat [1 ..< Suc (length committed)]
         \<and> distinct (assignedNumbers (orders d' c))" by (intro conjI)
  qed
  from com dis srt l lst mono nxt asg inc uni fresh show ?thesis by (intro conjI)
qed

theorem allocator_unique_monotone_witness:
  "run ''eggOrders'' (freshStore, {#}, []) (lateStamps, {#}, [enat 1, enat 2])
   \<and> currentLast ''eggOrders'' freshStore = enat 0
   \<and> 0 + length [enat 1, enat 2] \<le> (2::nat) ^ 53
   \<and> orderCounters freshStore ''eggOrders'' = None
   \<and> map (\<lambda>p. orderNumber (snd p)) (orders freshStore ''eggOrders'') = [None, None]
   \<and> orderCounters lateStamps ''eggOrders'' = Some (enat 2)
   \<and> run ''eggOrders'' (lateStamps, {#}, [enat 1, enat 2])
        (fst (snd (assignOrderNumber ''eggOrders'' (''eggOrders'', ''c'') lateStamps)), {#},
         [enat 1, enat 2, enat 3])
   \<and> currentLast ''eggOrders'' lateStamps
        \<le> currentLast ''eggOrders''
             (fst (snd (assignOrderNumber ''eggOrders'' (''eggOrders'', ''c'') lateStamps)))
   \<and> fst (allocateTx ''eggOrders'' lateStamps) = enat 3
   \<and> fst (assignOrderNumber ''eggOrders'' (''eggOrders'', ''c'') lateStamps) = ''#0003''
   \<and> map (\<lambda>p. orderNumber (snd p)) (orders lateStamps ''eggOrders'')
        = [Some ''#0001'', Some ''#0002'']
   \<and> assignedNumbers (orders lateStamps ''eggOrders'') = [enat 1, enat 2]
   \<and> distinct (assignedNumbers (orders lateStamps ''eggOrders''))"
proof -
  let ?c = "''eggOrders''"
  let ?a = "(''eggOrders'', ''a'')"
  let ?b = "(''eggOrders'', ''b'')"
  let ?d1 = "fst (snd (allocateTx ?c freshStore))"
  let ?d2 = "fst (snd (allocateTx ?c ?d1))"
  have c0: "orderCounters freshStore ?c = None"
    by (simp add: freshStore_def emptyStore_def)
  have o0: "orders freshStore ?c = [(''a'', emptyDoc), (''b'', emptyDoc)]"
    by (simp add: freshStore_def emptyStore_def)
  have m0: "map (\<lambda>p. orderNumber (snd p)) (orders freshStore ?c) = [None, None]"
    by (simp add: o0 emptyDoc_def)
  have n0: "\<forall>p \<in> set (orders freshStore ?c). orderNumber (snd p) = None"
    by (simp add: o0 emptyDoc_def)
  then have "\<forall>(i, doc) \<in> set (orders freshStore ?c). orderNumber doc = None" by auto
  from currentLast_unnumbered [OF c0 this]
  have l0: "currentLast ?c freshStore = enat 0" by (simp add: zero_enat_def)
  have tx1: "allocateTx ?c freshStore = (enat 1, ?d1, snd (snd (allocateTx ?c freshStore)))"
    using allocateTx_number [of ?c freshStore]
    by (cases "allocateTx ?c freshStore") (simp add: l0 plusOne_0_1)
  have c1: "orderCounters ?d1 ?c = Some (enat 1)"
    by (simp add: allocateTx_db l0 plusOne_0_1)
  then have l1: "currentLast ?c ?d1 = enat 1" by (rule currentLast_counter)
  have tx2: "allocateTx ?c ?d1 = (enat 2, ?d2, snd (snd (allocateTx ?c ?d1)))"
    using allocateTx_number [of ?c ?d1]
    by (cases "allocateTx ?c ?d1") (simp add: l1 plusOne_0_1)
  have late: "lateStamps = stampOrder ?a ''#0001'' (stampOrder ?b ''#0002'' ?d2)"
    unfolding lateStamps_def
    by (subst tx1, simp only: prod.case Let_def, subst tx2)
       (simp only: prod.case Let_def formatOrderNumber_1_2_3)
  have r0: "run ?c (freshStore, {#}, []) (freshStore, {#}, [])" by (rule run.start)
  from run.commit [OF r0 tx1, of ?a]
  have r1: "run ?c (freshStore, {#}, []) (?d1, {#(?a, ''#0001'')#}, [enat 1])"
    by (simp only: formatOrderNumber_1_2_3 fst_conv append_Nil simp_thms)
  from run.commit [OF r1 tx2, of ?b]
  have r2: "run ?c (freshStore, {#}, [])
      (?d2, {#(?b, ''#0002''), (?a, ''#0001'')#}, [enat 1, enat 2])"
    by (simp only: formatOrderNumber_1_2_3 fst_conv append_Cons append_Nil simp_thms)
  have "(?b, ''#0002'') \<in># {#(?b, ''#0002''), (?a, ''#0001'')#}" by simp
  from run.stamp [OF r2 this]
  have r3: "run ?c (freshStore, {#}, [])
      (stampOrder ?b ''#0002'' ?d2, {#(?a, ''#0001'')#}, [enat 1, enat 2])"
    by simp
  have "(?a, ''#0001'') \<in># {#(?a, ''#0001'')#}" by simp
  from run.stamp [OF r3 this]
  have r: "run ?c (freshStore, {#}, []) (lateStamps, {#}, [enat 1, enat 2])"
    by (simp add: late)
  have b: "0 + length [enat 1, enat 2] \<le> (2::nat) ^ 53" by simp
  let ?d3 = "fst (snd (assignOrderNumber ?c (?c, ''c'') lateStamps))"
  note inst = allocator_unique_monotone [OF r l0 b, of ?d3 "{#}" "[enat 1, enat 2, enat 3]"
      "(?c, ''c'')"]
  have 1: "orderCounters lateStamps ?c = Some (enat 2)"
    using inst by simp
  have 2: "fst (allocateTx ?c lateStamps) = enat 3"
    using inst by (simp add: numeral_3_eq_3)
  have "run ?c (lateStamps, {#}, [enat 1, enat 2]) (lateStamps, {#}, [enat 1, enat 2])"
    by (rule run.start)
  from run_assignOrderNumber [OF this, of "(?c, ''c'')"]
  have r3: "run ?c (lateStamps, {#}, [enat 1, enat 2]) (?d3, {#}, [enat 1, enat 2, enat 3])"
    by (simp add: 2)
  have b3: "0 + length [enat 1, enat 2, enat 3] \<le> (2::nat) ^ 53" by simp
  have 7: "currentLast ?c lateStamps \<le> currentLast ?c ?d3"
    using inst r3 b3 by blast
  have "fst (assignOrderNumber ?c (?c, ''c'') lateStamps) = formatOrderNumber (enat 3)"
    using inst by (simp add: numeral_3_eq_3)
  then have 3: "fst (assignOrderNumber ?c (?c, ''c'') lateStamps) = ''#0003''"
    by (simp only: formatOrderNumber_1_2_3)
  have 4: "distinct (assignedNumbers (orders lateStamps ?c))"
    using inst c0 n0 by blast
  have o: "orders lateStamps ?c = [(''a'', emptyDoc\<lparr>orderNumber := Some ''#0001''\<rparr>),
      (''b'', emptyDoc\<lparr>orderNumber := Some ''#0002''\<rparr>)]"
    by (subst late) (simp add: orders_stampOrder allocateTx_db o0)
  have 5: "map (\<lambda>p. orderNumber (snd p)) (orders lateStamps ?c)
      = [Some ''#0001'', Some ''#0002'']"
    by (simp add: o)
  have "parseOrderNumber (Some (formatOrderNumber (enat 1))) = enat 1"
    by (rule parse_format_small) simp
  then have p1: "parseOrderNumber (Some ''#0001'') = enat 1"
    by (simp only: formatOrderNumber_1_2_3)
  have "parseOrderNumber (Some (formatOrderNumber (enat 2))) = enat 2"
    by (rule parse_format_small) simp
  then have p2: "parseOrderNumber (Some ''#0002'') = enat 2"
    by (simp only: formatOrderNumber_1_2_3)
  have 6: "assignedNumbers (orders lateStamps ?c) = [enat 1, enat 2]"
    by (simp add: o assignedNumbers_def p1 p2 zero_enat_def)
  from r l0 b c0 m0 1 r3 7 2 3 4 5 6 show ?thesis by (intro conjI)
qed

section \<open>Idempotent allocation\<close>



section \<open>Properties of the delivery client\<close>

lemma getResendClient_configuredEnv: "getResendClient configuredEnv = Some acceptAll"
  by (simp add: getResendClient_def configuredEnv_def firstTruthy_def truthy_def)

lemma getResendClient_unconfiguredEnv: "getResendClient unconfiguredEnv = None"
  by (simp add: getResendClient_def unconfiguredEnv_def firstTruthy_def truthy_def)

lemma sendEmail_no_recipients:
  "filter (\<lambda>a. a \<noteq> []) recipients = [] \<Longrightarrow> snd (sendEmail env recipients subj) = []"
  by (simp add: sendEmail_def split: option.splits)

lemma sendEmail_recipients:
  assumes "getResendClient env = Some t" and "filter (\<lambda>a. a \<noteq> []) recipients \<noteq> []"
  shows "sendEmail env recipients subj =
     (map_sum id Some (t \<lparr>to = filter (\<lambda>a. a \<noteq> []) recipients, subject = subj\<rparr>),
      [\<lparr>to = filter (\<lambda>a. a \<noteq> []) recipients, subject = subj\<rparr>])"
  using assms by (simp add: sendEmail_def Let_def split: sum.splits)

text \<open>
  Claim C8, as stated, fails: without an API key \<open>sendEmail\<close> throws before it looks at
  the recipients, so an empty recipient list gives an error and not \<open>null\<close>.
\<close>

theorem sendEmail_empty_unconfigured:
  "sendEmail unconfiguredEnv [] ''Test''
     = (Inl (HttpsError failed_precondition ''Resend API key is not configured.''), [])
   \<and> fst (sendEmail unconfiguredEnv [] ''Test'') \<noteq> Inr None"
  by (simp add: sendEmail_def getResendClient_unconfiguredEnv)

text \<open>
  Claim C8, amended. When the recipient list is empty after the falsy entries are
  dropped, the transport is never contacted; with an API key configured the call returns
  \<open>null\<close>, and without one it fails with the configuration error.
\<close>

theorem sendEmail_empty_noop:
  assumes "filter (\<lambda>a. a \<noteq> []) recipients = []"
  shows "sendEmail env recipients subj =
     (if getResendClient env = None
      then (Inl (HttpsError failed_precondition ''Resend API key is not configured.''), [])
      else (Inr None, []))"
  using assms by (simp add: sendEmail_def split: option.splits)

theorem sendEmail_empty_noop_witness:
  "filter (\<lambda>a. a \<noteq> []) ['''', ''''] = []
   \<and> sendEmail configuredEnv ['''', ''''] ''Test'' = (Inr None, [])"
proof -
  have f: "filter (\<lambda>a. a \<noteq> []) ['''', ''''] = ([] :: string list)" by simp
  from sendEmail_empty_noop [OF f, of configuredEnv "''Test''"]
  show ?thesis by (simp add: getResendClient_configuredEnv)
qed

section \<open>Properties of the recipient resolver\<close>

lemma getAdminRecipients_nonempty_entries: "\<forall>a \<in> set (getAdminRecipients env). a \<noteq> []"
  by (auto simp: getAdminRecipients_def Let_def keepAddress_def ADMIN_EMAIL_FALLBACKS_def
      split: if_splits)

lemma filter_getAdminRecipients:
  "filter (\<lambda>a. a \<noteq> []) (getAdminRecipients env) = getAdminRecipients env"
  using getAdminRecipients_nonempty_entries [of env] by (simp add: filter_id_conv)

section \<open>Properties of the status notifications\<close>

lemma andThen_skip: "andThen skip f = f ()"
  by (simp add: andThen_def skip_def split: prod.splits)

lemma andThen_sent:
  "andThen (Inr x, sent) f = (fst (f x), sent @ snd (f x))"
  by (simp add: andThen_def split: prod.splits)

lemma sendEmail_accepted:
  assumes "getResendClient env = Some t" and "rs \<noteq> []" and "\<forall>a \<in> set rs. a \<noteq> []"
    and "t \<lparr>to = rs, subject = subj\<rparr> = Inr r"
  shows "sendEmail env rs subj = (Inr (Some r), [\<lparr>to = rs, subject = subj\<rparr>])"
proof -
  have "filter (\<lambda>a. a \<noteq> []) rs = rs" using assms(3) by (simp add: filter_id_conv)
  with assms show ?thesis by (simp add: sendEmail_def Let_def)
qed

lemma sendEmail_sent_admin:
  assumes "getResendClient env = Some t" and "getAdminRecipients env \<noteq> []"
  shows "snd (sendEmail env (getAdminRecipients env) subj)
     = [\<lparr>to = getAdminRecipients env, subject = subj\<rparr>]"
  using assms
  by (simp add: sendEmail_def Let_def filter_getAdminRecipients split: sum.splits)

lemma sendOrderStatusEmails_sent:
  assumes st: "truthy nextStatus" "orElse nextStatus [] \<notin> {''archived'', ''cancelled''}"
    and cl: "getResendClient env = Some t"
    and ok: "truthy (email order) \<longrightarrow> (\<exists>r. t (customerStatusMessage order) = Inr r)"
  shows "snd (sendOrderStatusEmails env order previousStatus nextStatus)
     = (if truthy (email order) then [customerStatusMessage order] else [])
       @ (if getAdminRecipients env \<noteq> [] then [adminStatusMessage env order] else [])"
proof -
  let ?admin = "\<lambda>u::unit. if length (getAdminRecipients env) > 0
      then andThen (sendEmail env (getAdminRecipients env)
                      (''Order status updated'' @ orderNumberLabel order))
                   (\<lambda>result. skip)
      else skip"
  have admin: "snd (?admin ()) =
      (if getAdminRecipients env \<noteq> [] then [adminStatusMessage env order] else [])"
  proof (cases "getAdminRecipients env = []")
    case True
    then show ?thesis by (simp add: skip_def)
  next
    case False
    have "snd (andThen (sendEmail env (getAdminRecipients env)
                      (''Order status updated'' @ orderNumberLabel order))
                   (\<lambda>result. skip))
        = snd (sendEmail env (getAdminRecipients env)
                      (''Order status updated'' @ orderNumberLabel order))"
      by (simp add: andThen_def skip_def split: prod.splits sum.splits)
    with False show ?thesis
      by (simp add: sendEmail_sent_admin [OF cl False] adminStatusMessage_def)
  qed
  have body: "sendOrderStatusEmails env order previousStatus nextStatus
      = andThen (if truthy (email order)
                 then andThen (sendEmail env [orElse (email order) []]
                         (''Your order'' @ orderNumberLabel order @ '' status update''))
                        (\<lambda>result. skip)
                 else skip) ?admin"
    using st by (simp add: sendOrderStatusEmails_def Let_def)
  show ?thesis
  proof (cases "truthy (email order)")
    case False
    with body admin show ?thesis by (simp add: andThen_skip)
  next
    case True
    then have ne: "orElse (email order) [] \<noteq> []"
      by (auto simp: truthy_def orElse_def split: option.splits)
    from True ok obtain r where r: "t (customerStatusMessage order) = Inr r" by blast
    have "sendEmail env [orElse (email order) []]
            (''Your order'' @ orderNumberLabel order @ '' status update'')
        = (Inr (Some r), [customerStatusMessage order])"
      using sendEmail_accepted [OF cl, of "[orElse (email order) []]" _ r] ne r
      by (simp add: customerStatusMessage_def)
    with body True admin show ?thesis
      by (simp add: andThen_sent skip_def)
  qed
qed

lemma emailOnStatusChange_unfold:
  "emailOnStatusChange env before after =
     (if orderStatus before = orderStatus after then skip
      else sendOrderStatusEmails env (notifiedOrder before after)
             (orderStatus before) (orderStatus after))"
  by (simp add: emailOnStatusChange_def)

lemma sendOrderStatusEmails_suppressed:
  "nextStatus \<in> {Some ''cancelled'', Some ''archived''} \<Longrightarrow>
     sendOrderStatusEmails env order previousStatus nextStatus = skip"
  by (auto simp: sendOrderStatusEmails_def orElse_def)

lemma getAdminRecipients_configuredEnv: "getAdminRecipients configuredEnv = [''owner@example.org'']"
  by (simp add: getAdminRecipients_def rawAdminEmail_def configuredEnv_def firstTruthy_def
      truthy_def orElse_def splitSeparators.simps isSeparator_def isSpace_def trim_def keepAddress_def toLowerCase_def
      toLowerChar_def ADMIN_EMAIL_EXCLUSIONS_def)

text \<open>
  Claim C6, as stated, fails. A change of the status to an empty (or missing) status is
  not a change into \<open>cancelled\<close> or \<open>archived\<close>, yet \<open>sendOrderStatusEmails\<close> returns at
  once; and without an API key the customer send throws, so that a change from
  \<open>pending\<close> to \<open>packed\<close> sends nothing although the order has an email address and
  there are admin recipients.
\<close>

theorem status_change_not_every_transition:
  "orderStatus sampleOrder \<noteq> orderStatus (sampleOrder\<lparr>orderStatus := Some ''''\<rparr>)
   \<and> truthy (email sampleOrder) \<and> getAdminRecipients configuredEnv \<noteq> []
   \<and> emailOnStatusChange configuredEnv sampleOrder (sampleOrder\<lparr>orderStatus := Some ''''\<rparr>)
       = (Inr (), [])
   \<and> getAdminRecipients noKeyEnv \<noteq> []
   \<and> emailOnStatusChange noKeyEnv sampleOrder (sampleOrder\<lparr>orderStatus := Some ''packed''\<rparr>)
       = (Inl (HttpsError failed_precondition ''Resend API key is not configured.''), [])"
proof -
  have k: "getResendClient noKeyEnv = None"
    by (simp add: getResendClient_def noKeyEnv_def configuredEnv_def firstTruthy_def truthy_def)
  have a: "getAdminRecipients noKeyEnv = getAdminRecipients configuredEnv"
    by (simp add: getAdminRecipients_def rawAdminEmail_def noKeyEnv_def)
  have "emailOnStatusChange noKeyEnv sampleOrder (sampleOrder\<lparr>orderStatus := Some ''packed''\<rparr>)
       = (Inl (HttpsError failed_precondition ''Resend API key is not configured.''), [])"
    by (simp add: emailOnStatusChange_def notifiedOrder_def sendOrderStatusEmails_def
        sampleOrder_def truthy_def orElse_def firstTruthy_def sendEmail_def k andThen_def Let_def)
  moreover have "emailOnStatusChange configuredEnv sampleOrder
      (sampleOrder\<lparr>orderStatus := Some ''''\<rparr>) = (Inr (), [])"
    by (simp add: emailOnStatusChange_def notifiedOrder_def sendOrderStatusEmails_def
        sampleOrder_def truthy_def skip_def)
  ultimately show ?thesis
    by (simp add: a getAdminRecipients_configuredEnv) (simp add: sampleOrder_def truthy_def)
qed

text \<open>
  Claim C6, amended. An update that leaves the status as it was sends nothing, and so
  does a change into \<open>cancelled\<close> or \<open>archived\<close>. Every other change into a non-empty
  status, with an API key configured and the transport accepting the customer message,
  sends the customer message exactly when the order's email is non-empty, followed by the
  admin message exactly when the admin recipient list is non-empty. A change to an empty
  or missing status sends nothing; and without an API key nothing is sent, and the first
  send, if there is one, fails with the configuration error.
\<close>

theorem status_change_notifications:
  "(orderStatus before = orderStatus after \<longrightarrow> emailOnStatusChange env before after = skip)
   \<and> (orderStatus after \<in> {Some ''cancelled'', Some ''archived''} \<longrightarrow>
        emailOnStatusChange env before after = skip)
   \<and> (orderStatus before \<noteq> orderStatus after \<and> truthy (orderStatus after)
        \<and> orderStatus after \<notin> {Some ''cancelled'', Some ''archived''}
        \<and> getResendClient env = Some t
        \<and> (truthy (email after) \<longrightarrow>
              (\<exists>r. t (customerStatusMessage (notifiedOrder before after)) = Inr r)) \<longrightarrow>
        snd (emailOnStatusChange env before after)
          = (if truthy (email after)
             then [customerStatusMessage (notifiedOrder before after)] else [])
            @ (if getAdminRecipients env \<noteq> []
               then [adminStatusMessage env (notifiedOrder before after)] else []))
   \<and> (\<not> truthy (orderStatus after) \<longrightarrow> emailOnStatusChange env before after = skip)
   \<and> (orderStatus before \<noteq> orderStatus after \<and> truthy (orderStatus after)
        \<and> orderStatus after \<notin> {Some ''cancelled'', Some ''archived''}
        \<and> getResendClient env = None \<longrightarrow>
        emailOnStatusChange env before after
          = (if truthy (email after) \<or> getAdminRecipients env \<noteq> []
             then (Inl (HttpsError failed_precondition ''Resend API key is not configured.''), [])
             else skip))"
proof (intro conjI impI)
  assume "orderStatus before = orderStatus after"
  then show "emailOnStatusChange env before after = skip"
    by (simp add: emailOnStatusChange_unfold)
next
  assume "orderStatus after \<in> {Some ''cancelled'', Some ''archived''}"
  then show "emailOnStatusChange env before after = skip"
    by (simp only: emailOnStatusChange_unfold sendOrderStatusEmails_suppressed if_cancel)
next
  assume h: "orderStatus before \<noteq> orderStatus after \<and> truthy (orderStatus after)
        \<and> orderStatus after \<notin> {Some ''cancelled'', Some ''archived''}
        \<and> getResendClient env = Some t
        \<and> (truthy (email after) \<longrightarrow>
              (\<exists>r. t (customerStatusMessage (notifiedOrder before after)) = Inr r))"
  have e: "email (notifiedOrder before after) = email after"
    by (simp add: notifiedOrder_def)
  from h have n: "orElse (orderStatus after) [] \<notin> {''archived'', ''cancelled''}"
    by (auto simp: truthy_def orElse_def split: option.splits)
  from h have ok: "truthy (email (notifiedOrder before after)) \<longrightarrow>
      (\<exists>r. t (customerStatusMessage (notifiedOrder before after)) = Inr r)"
    by (simp add: e)
  from h have "snd (emailOnStatusChange env before after)
      = snd (sendOrderStatusEmails env (notifiedOrder before after)
               (orderStatus before) (orderStatus after))"
    by (simp add: emailOnStatusChange_unfold)
  also have "\<dots> = (if truthy (email (notifiedOrder before after))
             then [customerStatusMessage (notifiedOrder before after)] else [])
            @ (if getAdminRecipients env \<noteq> []
               then [adminStatusMessage env (notifiedOrder before after)] else [])"
  proof -
    from h have s: "truthy (orderStatus after)" and cl: "getResendClient env = Some t"
      by simp_all
    show ?thesis by (rule sendOrderStatusEmails_sent [OF s n cl ok])
  qed
  finally show "snd (emailOnStatusChange env before after)
          = (if truthy (email after)
             then [customerStatusMessage (notifiedOrder before after)] else [])
            @ (if getAdminRecipients env \<noteq> []
               then [adminStatusMessage env (notifiedOrder before after)] else [])"
    by (simp add: e)
next
  assume "\<not> truthy (orderStatus after)"
  then show "emailOnStatusChange env before after = skip"
    by (simp add: emailOnStatusChange_unfold sendOrderStatusEmails_def)
next
  assume h: "orderStatus before \<noteq> orderStatus after \<and> truthy (orderStatus after)
        \<and> orderStatus after \<notin> {Some ''cancelled'', Some ''archived''}
        \<and> getResendClient env = None"
  have e: "email (notifiedOrder before after) = email after"
    by (simp add: notifiedOrder_def)
  from h have n: "orElse (orderStatus after) [] \<notin> {''archived'', ''cancelled''}"
    by (auto simp: truthy_def orElse_def split: option.splits)
  from h have k: "getResendClient env = None" by simp
  have s: "\<And>rs subj. sendEmail env rs subj
      = (Inl (HttpsError failed_precondition ''Resend API key is not configured.''), [])"
    by (simp add: sendEmail_def k)
  from h n show "emailOnStatusChange env before after
          = (if truthy (email after) \<or> getAdminRecipients env \<noteq> []
             then (Inl (HttpsError failed_precondition ''Resend API key is not configured.''), [])
             else skip)"
    by (simp add: emailOnStatusChange_unfold sendOrderStatusEmails_def e s andThen_def
        skip_def Let_def)
qed

theorem status_change_notifications_witness:
  "orderStatus sampleOrder = orderStatus sampleOrder
   \<and> emailOnStatusChange configuredEnv sampleOrder sampleOrder = skip
   \<and> emailOnStatusChange configuredEnv sampleOrder (sampleOrder\<lparr>orderStatus := Some ''archived''\<rparr>)
       = skip
   \<and> snd (emailOnStatusChange configuredEnv sampleOrder
            (sampleOrder\<lparr>orderStatus := Some ''packed''\<rparr>))
       = [\<lparr>to = [''jo@example.org''], subject = ''Your order #0007 status update''\<rparr>,
          \<lparr>to = [''owner@example.org''], subject = ''Order status updated #0007''\<rparr>]
   \<and> emailOnStatusChange configuredEnv sampleOrder (sampleOrder\<lparr>orderStatus := None\<rparr>)
       = skip
   \<and> getResendClient noKeyEnv = None
   \<and> emailOnStatusChange noKeyEnv sampleOrder (sampleOrder\<lparr>orderStatus := Some ''packed''\<rparr>)
       = (Inl (HttpsError failed_precondition ''Resend API key is not configured.''), [])"
proof -
  let ?packed = "sampleOrder\<lparr>orderStatus := Some ''packed''\<rparr>"
  let ?archived = "sampleOrder\<lparr>orderStatus := Some ''archived''\<rparr>"
  have 1: "emailOnStatusChange configuredEnv sampleOrder sampleOrder = skip"
    using status_change_notifications [of sampleOrder sampleOrder configuredEnv acceptAll]
    by simp
  have 2: "emailOnStatusChange configuredEnv sampleOrder ?archived = skip"
    using status_change_notifications [of sampleOrder ?archived configuredEnv acceptAll]
    by simp
  have 3: "snd (emailOnStatusChange configuredEnv sampleOrder ?packed)
       = [\<lparr>to = [''jo@example.org''], subject = ''Your order #0007 status update''\<rparr>,
          \<lparr>to = [''owner@example.org''], subject = ''Order status updated #0007''\<rparr>]"
    using status_change_notifications [of sampleOrder ?packed configuredEnv acceptAll]
    by (simp add: getResendClient_configuredEnv getAdminRecipients_configuredEnv
        customerStatusMessage_def adminStatusMessage_def notifiedOrder_def orderNumberLabel_def
        sampleOrder_def truthy_def orElse_def firstTruthy_def acceptAll_def)
  have 4: "emailOnStatusChange configuredEnv sampleOrder (sampleOrder\<lparr>orderStatus := None\<rparr>)
       = skip"
    using status_change_notifications [of sampleOrder "sampleOrder\<lparr>orderStatus := None\<rparr>"
        configuredEnv acceptAll]
    by (simp add: truthy_def)
  have k: "getResendClient noKeyEnv = None"
    by (simp add: getResendClient_def noKeyEnv_def configuredEnv_def firstTruthy_def truthy_def)
  have 5: "emailOnStatusChange noKeyEnv sampleOrder ?packed
       = (Inl (HttpsError failed_precondition ''Resend API key is not configured.''), [])"
    using status_change_notifications [of sampleOrder ?packed noKeyEnv acceptAll] k
    by (simp add: sampleOrder_def truthy_def)
  from 1 2 3 4 k 5 show ?thesis by simp
qed

section \<open>Properties of the dispatch notification\<close>

lemma requireStaff_staffContext: "requireStaff staffContext = Inr ()"
  by (simp add: requireStaff_def getRoleFromContext_def staffContext_def truthy_def)

lemma trim_literal: "trim ''eggOrders'' = ''eggOrders''" "trim ''o1'' = ''o1''"
    "trim ''jo@example.org'' = ''jo@example.org''"
  by (simp_all add: trim_def isSpace_def)

text \<open>
  What \<open>sendDispatchEmail\<close> does check, for a staff caller, a valid collection name and
  a non-empty order id: an order that does not exist is rejected with \<open>not-found\<close>, an
  order whose trimmed email is empty with \<open>failed-precondition\<close>, in both cases with
  nothing sent and the store unchanged.
\<close>

lemma sendDispatchEmail_rejections:
  assumes "requireStaff ctx = Inr ()"
    and "trim (orElse collectionName []) \<in> {''eggOrders'', ''livestockOrders''}"
    and "trim (orElse orderId []) \<noteq> []"
  shows "map_of (orders d (trim (orElse collectionName []))) (trim (orElse orderId [])) = None \<Longrightarrow>
           sendDispatchEmail env ctx collectionName orderId d
             = (Inl (HttpsError not_found ''Order not found.''), [], d)"
    and "map_of (orders d (trim (orElse collectionName []))) (trim (orElse orderId [])) = Some order \<Longrightarrow>
           trim (orElse (email order) []) = [] \<Longrightarrow>
           sendDispatchEmail env ctx collectionName orderId d
             = (Inl (HttpsError failed_precondition ''Order email is missing.''), [], d)"
  using assms by (auto simp: sendDispatchEmail_def Let_def)

text \<open>
  Claim C3 on the code: a staff caller asks for the dispatch email of an order that has
  an email address but an empty send date. The dashboard disables its button for such an
  order (\<open>canSendDispatch\<close>), but the callable itself does not look at the send date:
  the email is sent and the order is marked.
\<close>

theorem sendDispatchEmail_empty_sendDate:
  "canSendDispatch (sampleOrder\<lparr>sendDate := Some ''''\<rparr>) '''' = False
   \<and> sendDispatchEmail configuredEnv staffContext (Some ''eggOrders'') (Some ''o1'')
        (emptyStore\<lparr>orders := (\<lambda>c. if c = ''eggOrders''
                                    then [(''o1'', sampleOrder\<lparr>sendDate := Some ''''\<rparr>)] else [])\<rparr>)
     = (Inr (Some ''re_1''),
        [\<lparr>to = [''jo@example.org''],
          subject = ''Your order #0007 update from The Crooked Fence''\<rparr>],
        emptyStore\<lparr>orders := (\<lambda>c. if c = ''eggOrders''
                                    then [(''o1'', sampleOrder\<lparr>sendDate := Some '''',
                                                    dispatchEmailSentAt := True\<rparr>)] else [])\<rparr>)"
proof -
  have "canSendDispatch (sampleOrder\<lparr>sendDate := Some ''''\<rparr>) '''' = False"
    by (simp add: canSendDispatch_def)
  moreover have "sendDispatchEmail configuredEnv staffContext (Some ''eggOrders'') (Some ''o1'')
        (emptyStore\<lparr>orders := (\<lambda>c. if c = ''eggOrders''
                                    then [(''o1'', sampleOrder\<lparr>sendDate := Some ''''\<rparr>)] else [])\<rparr>)
     = (Inr (Some ''re_1''),
        [\<lparr>to = [''jo@example.org''],
          subject = ''Your order #0007 update from The Crooked Fence''\<rparr>],
        emptyStore\<lparr>orders := (\<lambda>c. if c = ''eggOrders''
                                    then [(''o1'', sampleOrder\<lparr>sendDate := Some '''',
                                                    dispatchEmailSentAt := True\<rparr>)] else [])\<rparr>)"
    by (simp add: sendDispatchEmail_def requireStaff_staffContext orElse_def trim_literal
        sampleOrder_def sendEmail_def getResendClient_configuredEnv acceptAll_def
        orderNumberLabel_def BRAND_NAME_def truthy_def setMerge_def emptyStore_def fun_eq_iff
        Let_def)
  ultimately show ?thesis by simp
qed

section \<open>The bootstrap scan\<close>

lemma foldl_digits_acc:
  "foldl (\<lambda>acc c. 10 * acc + ((of_char c :: nat) - 48)) a cs
     = a * 10 ^ length cs + foldl (\<lambda>acc c. 10 * acc + ((of_char c :: nat) - 48)) 0 cs"
proof (induction cs arbitrary: a)
  case Nil
  show ?case by simp
next
  case (Cons c cs)
  let ?f = "\<lambda>acc c. 10 * acc + ((of_char c :: nat) - 48)"
  let ?d = "(of_char c :: nat) - 48"
  have 1: "foldl ?f (10 * a + ?d) cs = (10 * a + ?d) * 10 ^ length cs + foldl ?f 0 cs"
    by (rule Cons.IH)
  have 2: "foldl ?f ?d cs = ?d * 10 ^ length cs + foldl ?f 0 cs"
    by (rule Cons.IH)
  have "foldl ?f a (c # cs) = foldl ?f (10 * a + ?d) cs" by simp
  also have "\<dots> = (10 * a + ?d) * 10 ^ length cs + foldl ?f 0 cs" by (rule 1)
  also have "\<dots> = a * 10 ^ length (c # cs) + (?d * 10 ^ length cs + foldl ?f 0 cs)"
    by (simp add: algebra_simps)
  also have "\<dots> = a * 10 ^ length (c # cs) + foldl ?f ?d cs" by (simp only: 2)
  also have "foldl ?f ?d cs = foldl ?f 0 (c # cs)" by simp
  finally show ?case .
qed

lemma digitsValue_Cons:
  "digitsValue (c # cs) = ((of_char c :: nat) - 48) * 10 ^ length cs + digitsValue cs"
  using foldl_digits_acc [of "of_char c - 48" cs] by (simp add: digitsValue_def)

lemma digitsValue_bound:
  "\<forall>c \<in> set cs. isDigit c \<Longrightarrow> digitsValue cs < 10 ^ length cs"
proof (induction cs)
  case Nil
  show ?case by (simp add: digitsValue_def)
next
  case (Cons c cs)
  then have "(of_char c :: nat) \<le> 57" and r: "digitsValue cs < 10 ^ length cs"
    by (simp_all add: isDigit_def)
  then have d: "(of_char c :: nat) - 48 \<le> 9" by linarith
  have "((of_char c :: nat) - 48) * 10 ^ length cs \<le> 9 * 10 ^ length cs"
    using d by (rule mult_le_mono1)
  then have "((of_char c :: nat) - 48) * 10 ^ length cs + digitsValue cs
      < 9 * 10 ^ length cs + 10 ^ length cs"
    using r by (rule add_le_less_mono)
  then show ?case by (simp add: digitsValue_Cons)
qed

lemma stringLess_digits:
  "length xs = length ys \<Longrightarrow> \<forall>c \<in> set xs. isDigit c \<Longrightarrow> \<forall>c \<in> set ys. isDigit c \<Longrightarrow>
     stringLess xs ys \<longleftrightarrow> digitsValue xs < digitsValue ys"
proof (induction xs ys rule: list_induct2)
  case Nil
  show ?case by (simp add: digitsValue_def)
next
  case (Cons x xs y ys)
  let ?dx = "(of_char x :: nat) - 48" and ?dy = "(of_char y :: nat) - 48"
  let ?n = "length xs"
  from Cons.prems have dx: "48 \<le> (of_char x :: nat)" and dy: "48 \<le> (of_char y :: nat)"
    by (simp_all add: isDigit_def)
  have bndx: "digitsValue xs < 10 ^ ?n" using Cons.prems by (intro digitsValue_bound) simp
  have bndy: "digitsValue ys < 10 ^ ?n"
    using Cons.prems Cons.hyps by (metis digitsValue_bound list.set_intros(2))
  have ih: "stringLess xs ys \<longleftrightarrow> digitsValue xs < digitsValue ys"
    using Cons.IH Cons.prems by simp
  have len: "length ys = ?n" using Cons.hyps by simp
  consider (lt) "?dx < ?dy" | (eq) "?dx = ?dy" | (gt) "?dy < ?dx" by linarith
  then show ?case
  proof cases
    case lt
    then have "(?dx + 1) * 10 ^ ?n \<le> ?dy * 10 ^ ?n" by (intro mult_le_mono1) simp
    then have "?dx * 10 ^ ?n + digitsValue xs < ?dy * 10 ^ ?n + digitsValue ys"
      using bndx by (simp add: algebra_simps)
    moreover from lt dx dy have "(of_char x :: nat) < of_char y" by linarith
    ultimately show ?thesis by (simp add: digitsValue_Cons len)
  next
    case eq
    with dx dy have "(of_char x :: nat) = of_char y" by linarith
    then have "x = y" by simp
    with ih show ?thesis by (simp add: digitsValue_Cons len)
  next
    case gt
    then have "(?dy + 1) * 10 ^ ?n \<le> ?dx * 10 ^ ?n" by (intro mult_le_mono1) simp
    then have "?dy * 10 ^ ?n + digitsValue ys < ?dx * 10 ^ ?n + digitsValue xs"
      using bndy by (simp add: algebra_simps)
    moreover from gt dx dy have "(of_char y :: nat) < of_char x" by linarith
    moreover then have "x \<noteq> y" by auto
    ultimately show ?thesis by (simp add: digitsValue_Cons len)
  qed
qed

lemma paddedDigits_props:
  assumes "n < 10000"
  shows "length (paddedDigits n) = 4" and "\<forall>c \<in> set (paddedDigits n). isDigit c"
    and "digitsValue (paddedDigits n) = n"
proof -
  have "n < 10 ^ 4" using assms by simp
  then have "length (decimal n) \<le> 4" by (intro decimal_length) simp_all
  then show "length (paddedDigits n) = 4"
    by (simp add: paddedDigits_def padStart_def ORDER_NUMBER_PAD_def)
  show "\<forall>c \<in> set (paddedDigits n). isDigit c"
    using decimal_digits [of n] by (auto simp: paddedDigits_def padStart_def isDigit_zero)
  show "digitsValue (paddedDigits n) = n"
    by (simp add: paddedDigits_def padStart_def digitsValue_zeros digitsValue_decimal)
qed

lemma fixed_width_safe:
  "n < 10000 \<Longrightarrow> n < (2::nat) ^ 53" "n < 10000 \<Longrightarrow> n \<le> (2::nat) ^ 53"
  by simp_all

lemma stringLess_formatOrderNumber:
  assumes "m < 10000" and "n < 10000"
  shows "stringLess (formatOrderNumber (enat m)) (formatOrderNumber (enat n)) \<longleftrightarrow> m < n"
proof -
  have "stringLess (formatOrderNumber (enat m)) (formatOrderNumber (enat n))
      \<longleftrightarrow> stringLess (paddedDigits m) (paddedDigits n)"
    by (simp add: formatOrderNumber_padded [OF fixed_width_safe(1) [OF assms(1)]]
        formatOrderNumber_padded [OF fixed_width_safe(1) [OF assms(2)]])
  also have "\<dots> \<longleftrightarrow> digitsValue (paddedDigits m) < digitsValue (paddedDigits n)"
    using paddedDigits_props [OF assms(1)] paddedDigits_props [OF assms(2)]
    by (intro stringLess_digits) simp_all
  finally show ?thesis
    by (simp add: paddedDigits_props(3) [OF assms(1)] paddedDigits_props(3) [OF assms(2)])
qed

lemma foldl_latest:
  assumes "m < 10000" and "\<forall>t \<in> set ts. \<exists>n<10000. t = formatOrderNumber (enat n)"
  shows "foldl (\<lambda>m t. if stringLess m t then t else m) (formatOrderNumber (enat m)) ts
     = formatOrderNumber (foldl max (enat m) (map (\<lambda>t. parseOrderNumber (Some t)) ts))"
  using assms
proof (induction ts arbitrary: m)
  case Nil
  show ?case by simp
next
  case (Cons t ts)
  then obtain n where n: "n < 10000" "t = formatOrderNumber (enat n)" by auto
  have step: "(if stringLess (formatOrderNumber (enat m)) (formatOrderNumber (enat n))
               then formatOrderNumber (enat n) else formatOrderNumber (enat m))
      = formatOrderNumber (enat (max m n))"
    using stringLess_formatOrderNumber [OF Cons.prems(1) n(1)] by (simp add: max_def)
  have mx: "max m n < 10000" using Cons.prems(1) n(1) by simp
  have p: "parseOrderNumber (Some (formatOrderNumber (enat n))) = enat n"
    using n(1) by (intro parse_format_small fixed_width_safe(2))
  have e: "max (enat m) (enat n) = enat (max m n)" by (simp add: max_def)
  have "foldl (\<lambda>m t. if stringLess m t then t else m) (formatOrderNumber (enat (max m n))) ts
     = formatOrderNumber (foldl max (enat (max m n)) (map (\<lambda>t. parseOrderNumber (Some t)) ts))"
    using Cons.prems(2) by (intro Cons.IH [OF mx]) simp
  then have "foldl (\<lambda>m t. if stringLess m t then t else m)
        (if stringLess (formatOrderNumber (enat m)) t then t else formatOrderNumber (enat m)) ts
     = formatOrderNumber (foldl max (max (enat m) (parseOrderNumber (Some t)))
         (map (\<lambda>t. parseOrderNumber (Some t)) ts))"
    by (simp only: step n(2) p e)
  then show ?case by simp
qed

lemma foldl_max_numbered:
  "foldl max a (map (\<lambda>(i, doc). parseOrderNumber (orderNumber doc)) docs)
     = foldl max a (map (\<lambda>t. parseOrderNumber (Some t))
         (List.map_filter (\<lambda>(i, doc). orderNumber doc) docs))"
proof (induction docs arbitrary: a)
  case Nil
  show ?case by (simp add: List.map_filter_simps)
next
  case (Cons x docs)
  obtain i doc where x: "x = (i, doc)" by (cases x)
  show ?case
  proof (cases "orderNumber doc")
    case None
    then show ?thesis
      using Cons.IH [of a] by (simp add: x List.map_filter_simps parseOrderNumber_def)
  next
    case (Some t)
    then show ?thesis
      using Cons.IH [of "max a (parseOrderNumber (Some t))"]
      by (simp add: x List.map_filter_simps)
  qed
qed

text \<open>
  While every number stored in the stream has the fixed width, that is, was formatted
  from a number below \<open>10^4\<close>, the order of the strings is the order of the numbers and
  the bootstrap value is the highest number assigned.
\<close>

lemma bootstrap_fixed_width:
  assumes "orderCounters d c = None"
    and "\<forall>(i, doc) \<in> set (orders d c).
           orderNumber doc = None
           \<or> (\<exists>n<10000. orderNumber doc = Some (formatOrderNumber (enat n)))"
  shows "currentLast c d = highestAssigned (orders d c)"
proof -
  let ?numbers = "List.map_filter (\<lambda>(i, doc). orderNumber doc) (orders d c)"
  have fmt: "\<forall>t \<in> set ?numbers. \<exists>n<10000. t = formatOrderNumber (enat n)"
  proof
    fix t assume "t \<in> set ?numbers"
    then obtain i doc where "(i, doc) \<in> set (orders d c)" and "orderNumber doc = Some t"
      by (auto simp: in_map_filter)
    with assms(2) show "\<exists>n<10000. t = formatOrderNumber (enat n)" by fastforce
  qed
  have high: "highestAssigned (orders d c)
      = foldl max 0 (map (\<lambda>t. parseOrderNumber (Some t)) ?numbers)"
    unfolding highestAssigned_def by (rule foldl_max_numbered)
  show ?thesis
  proof (cases ?numbers)
    case Nil
    then show ?thesis
      using assms(1) high by (simp add: currentLast_def latestOrderNumber_def parseOrderNumber_def)
  next
    case (Cons s ss)
    with fmt obtain m where m: "m < 10000" "s = formatOrderNumber (enat m)" by auto
    from fmt Cons have rest: "\<forall>t \<in> set ss. \<exists>n<10000. t = formatOrderNumber (enat n)" by simp
    have pm: "parseOrderNumber (Some (formatOrderNumber (enat m))) = enat m"
      using m(1) by (intro parse_format_small fixed_width_safe(2))
    have below: "\<forall>t \<in> set ss. \<exists>n<10000. parseOrderNumber (Some t) = enat n"
    proof
      fix t assume "t \<in> set ss"
      with rest obtain n where n: "n < 10000" "t = formatOrderNumber (enat n)" by auto
      from n(1) have "parseOrderNumber (Some (formatOrderNumber (enat n))) = enat n"
        by (intro parse_format_small fixed_width_safe(2))
      with n show "\<exists>n<10000. parseOrderNumber (Some t) = enat n" by auto
    qed
    have "\<And>a. a < 10000 \<Longrightarrow>
        \<exists>n<10000. foldl max (enat a) (map (\<lambda>t. parseOrderNumber (Some t)) ss) = enat n"
      using below
    proof (induction ss)
      case Nil
      then show ?case by simp
    next
      case (Cons t ts)
      then obtain n where n: "n < 10000" "parseOrderNumber (Some t) = enat n" by auto
      have e: "max (enat a) (enat n) = enat (max a n)" by (simp add: max_def)
      have "max a n < 10000" using Cons.prems(1) n(1) by simp
      from Cons.IH [OF this] Cons.prems(2) show ?case by (simp add: n(2) e)
    qed
    from this [OF m(1)] obtain h where h: "h < 10000"
      "foldl max (enat m) (map (\<lambda>t. parseOrderNumber (Some t)) ss) = enat h" by auto
    have ph: "parseOrderNumber (Some (formatOrderNumber (enat h))) = enat h"
      using h(1) by (intro parse_format_small fixed_width_safe(2))
    have "latestOrderNumber (orders d c) = Some (formatOrderNumber (enat h))"
      using foldl_latest [OF m(1) rest] by (simp add: latestOrderNumber_def Cons m(2) h(2))
    then have "currentLast c d = enat h"
      using assms(1) by (simp add: currentLast_def ph)
    also have "\<dots> = highestAssigned (orders d c)"
      by (simp add: high Cons m(2) pm h(2))
    finally show ?thesis .
  qed
qed

text \<open>
  Claim C7 on the code: the stream has no counter and two records, numbered \<open>9\<close> and
  \<open>10\<close>. The query orders the numbers as strings, so the record it returns is the one
  numbered \<open>9\<close>: the bootstrap value is 9, not the highest number 10, and the next
  order gets the number 10 a second time.
\<close>

theorem bootstrap_not_highest:
  "orderCounters legacyStore ''eggOrders'' = None
   \<and> highestAssigned (orders legacyStore ''eggOrders'') = 10
   \<and> currentLast ''eggOrders'' legacyStore = 9
   \<and> fst (assignOrderNumber ''eggOrders'' (''eggOrders'', ''c'') legacyStore) = ''#0010''
   \<and> parseOrderNumber (Some ''#0010'') = parseOrderNumber (Some ''10'')"
proof -
  have c: "orderCounters legacyStore ''eggOrders'' = None"
    by (simp add: legacyStore_def emptyStore_def)
  have h: "highestAssigned (orders legacyStore ''eggOrders'') = 10"
    by (simp add: highestAssigned_def legacyStore_def emptyStore_def emptyDoc_def
        parseOrderNumber_literals)
  have l: "currentLast ''eggOrders'' legacyStore = 9"
    by (rule currentLast_legacyStore)
  have a: "fst (assignOrderNumber ''eggOrders'' (''eggOrders'', ''c'') legacyStore) = ''#0010''"
    by (rule assignOrderNumber_legacyStore)
  from c h l a show ?thesis by (simp add: parseOrderNumber_literals)
qed

section \<open>Properties of the threshold watcher\<close>

lemma thresholdCrossed_iff:
  "thresholdCrossed before after \<longleftrightarrow>
     (\<exists>t. threshold after = Fin t \<and> 0 < t \<and> toNumber (quantity after) \<le> t
          \<and> (case before of None \<Rightarrow> True | Some b \<Rightarrow> t < toNumber (quantity b)))"
  by (cases "threshold after"; cases before)
     (auto simp: thresholdCrossed_def toNumber_def Let_def not_le)

lemma stockThresholdAlert_quiet:
  "\<not> thresholdCrossed before after \<Longrightarrow> stockThresholdAlert env before (Some after) = skip"
  by (simp add: stockThresholdAlert_def)

lemma stockThresholdAlert_sent:
  assumes "thresholdCrossed before after" and "getResendClient env = Some t"
    and "getAdminRecipients env \<noteq> []"
  shows "snd (stockThresholdAlert env before (Some after))
     = [\<lparr>to = getAdminRecipients env,
         subject = ''Stock alert: '' @ orElse (name after) ''Item'' @ '' low''\<rparr>]"
proof -
  have "snd (stockThresholdAlert env before (Some after))
      = snd (sendEmail env (getAdminRecipients env)
               (''Stock alert: '' @ orElse (name after) ''Item'' @ '' low''))"
    using assms(1,3)
    by (simp add: stockThresholdAlert_def Let_def andThen_def skip_def split: prod.splits sum.splits)
  then show ?thesis by (simp add: sendEmail_sent_admin [OF assms(2,3)])
qed

text \<open>
  Claim C5. A stock write raises the alert exactly when the threshold of the new state is
  a finite positive number, the new quantity is at or below it, and the old state is
  absent or its quantity was strictly above it. A write that starts and ends at or below
  the threshold raises nothing, a threshold that is not finite or not positive disables
  the alert, and the handler sends mail only when the alert is raised: of the writes
  10 to 4 and 4 to 3 under threshold 5, only the first sends an alert.
\<close>

theorem threshold_edge_triggered:
  "(thresholdCrossed before after \<longleftrightarrow>
     (\<exists>t. threshold after = Fin t \<and> 0 < t \<and> toNumber (quantity after) \<le> t
          \<and> (before = None \<or> (\<exists>b. before = Some b \<and> t < toNumber (quantity b)))))
   \<and> (toNumber (quantity b) \<le> toNumber (threshold after) \<longrightarrow>
        \<not> thresholdCrossed (Some b) after)
   \<and> (threshold after = NonFinite \<or> toNumber (threshold after) \<le> 0 \<longrightarrow>
        \<not> thresholdCrossed before after)
   \<and> (snd (stockThresholdAlert env before (Some after)) \<noteq> [] \<longrightarrow>
        thresholdCrossed before after)
   \<and> map (\<lambda>(b, a). thresholdCrossed (Some b) a)
        [(stockAt 10, stockAt 4), (stockAt 4, stockAt 3)] = [True, False]
   \<and> map (\<lambda>(b, a). length (snd (stockThresholdAlert configuredEnv (Some b) (Some a))))
        [(stockAt 10, stockAt 4), (stockAt 4, stockAt 3)] = [1, 0]"
proof -
  have iff: "thresholdCrossed before after \<longleftrightarrow>
     (\<exists>t. threshold after = Fin t \<and> 0 < t \<and> toNumber (quantity after) \<le> t
          \<and> (before = None \<or> (\<exists>b. before = Some b \<and> t < toNumber (quantity b))))"
    unfolding thresholdCrossed_iff by (cases before) auto
  have low: "toNumber (quantity b) \<le> toNumber (threshold after) \<longrightarrow>
        \<not> thresholdCrossed (Some b) after"
    by (auto simp: thresholdCrossed_iff toNumber_def)
  have off: "threshold after = NonFinite \<or> toNumber (threshold after) \<le> 0 \<longrightarrow>
        \<not> thresholdCrossed before after"
    by (auto simp: thresholdCrossed_iff toNumber_def)
  have quiet: "snd (stockThresholdAlert env before (Some after)) \<noteq> [] \<longrightarrow>
        thresholdCrossed before after"
  proof (cases "thresholdCrossed before after")
    case False
    then show ?thesis by (simp add: stockThresholdAlert_quiet skip_def)
  qed simp
  have c1: "thresholdCrossed (Some (stockAt 10)) (stockAt 4)"
    by (simp add: thresholdCrossed_def stockAt_def toNumber_def)
  have c2: "\<not> thresholdCrossed (Some (stockAt 4)) (stockAt 3)"
    by (simp add: thresholdCrossed_def stockAt_def toNumber_def)
  have s1: "length (snd (stockThresholdAlert configuredEnv (Some (stockAt 10)) (Some (stockAt 4)))) = 1"
    using stockThresholdAlert_sent [OF c1 getResendClient_configuredEnv]
    by (simp add: getAdminRecipients_configuredEnv)
  have s2: "length (snd (stockThresholdAlert configuredEnv (Some (stockAt 4)) (Some (stockAt 3)))) = 0"
    using stockThresholdAlert_quiet [OF c2] by (simp add: skip_def)
  from iff low off quiet c1 c2 s1 s2 show ?thesis by simp
qed

theorem threshold_edge_triggered_witness:
  "toNumber (quantity (stockAt 4)) \<le> toNumber (threshold (stockAt 3))
   \<and> \<not> thresholdCrossed (Some (stockAt 4)) (stockAt 3)
   \<and> toNumber (threshold (stockAt 2 \<lparr>threshold := Fin 0\<rparr>)) \<le> 0
   \<and> \<not> thresholdCrossed (Some (stockAt 10)) (stockAt 2 \<lparr>threshold := Fin 0\<rparr>)
   \<and> snd (stockThresholdAlert configuredEnv None (Some (stockAt 5))) \<noteq> []
   \<and> thresholdCrossed None (stockAt 5)"
proof -
  have a: "toNumber (quantity (stockAt 4)) \<le> toNumber (threshold (stockAt 3))"
    by (simp add: stockAt_def toNumber_def)
  have b: "toNumber (threshold (stockAt 2 \<lparr>threshold := Fin 0\<rparr>)) \<le> 0"
    by (simp add: toNumber_def)
  have c: "thresholdCrossed None (stockAt 5)"
    by (simp add: thresholdCrossed_def stockAt_def toNumber_def)
  have d: "snd (stockThresholdAlert configuredEnv None (Some (stockAt 5))) \<noteq> []"
    using stockThresholdAlert_sent [OF c getResendClient_configuredEnv]
    by (simp add: getAdminRecipients_configuredEnv)
  from threshold_edge_triggered [of "Some (stockAt 4)" "stockAt 3" "stockAt 4" configuredEnv] a
  have 1: "\<not> thresholdCrossed (Some (stockAt 4)) (stockAt 3)" by blast
  from threshold_edge_triggered [of "Some (stockAt 10)" "stockAt 2 \<lparr>threshold := Fin 0\<rparr>"
      "stockAt 10" configuredEnv] b
  have 2: "\<not> thresholdCrossed (Some (stockAt 10)) (stockAt 2 \<lparr>threshold := Fin 0\<rparr>)" by blast
  from threshold_edge_triggered [of None "stockAt 5" "stockAt 5" configuredEnv] d
  have 3: "thresholdCrossed None (stockAt 5)" by blast
  from a b d 1 2 3 show ?thesis by blast
qed

section \<open>Properties of the allocation poller\<close>

lemma pollOrderNumber_reads:
  "i \<le> 5 \<Longrightarrow> fst (snd (pollOrderNumber getDoc i sleeps)) \<le> 5"
proof (induction getDoc i sleeps rule: pollOrderNumber.induct)
  case (1 getDoc i sleeps)
  show ?case
  proof (cases "i < 5")
    case False
    with "1.prems" show ?thesis by (subst pollOrderNumber.simps) simp
  next
    case True
    show ?thesis
    proof (cases "getDoc i")
      case (Inl e)
      with True show ?thesis by (subst pollOrderNumber.simps) simp
    next
      case (Inr nextNumber)
      show ?thesis
      proof (cases "truthy nextNumber")
        case t: True
        with True Inr show ?thesis by (subst pollOrderNumber.simps) simp
      next
        case f: False
        have "fst (snd (pollOrderNumber getDoc (i + 1) (sleeps + 1))) \<le> 5"
          using "1.IH" [OF True Inr f] True by simp
        with True Inr f show ?thesis by (subst pollOrderNumber.simps) simp
      qed
    qed
  qed
qed

lemma pollOrderNumber_skip:
  assumes "\<forall>j. i \<le> j \<and> j < k \<longrightarrow> (\<exists>v. getDoc j = Inr v \<and> \<not> truthy v)"
    and "i \<le> k" and "k \<le> 5"
  shows "pollOrderNumber getDoc i sleeps = pollOrderNumber getDoc k (sleeps + (k - i))"
  using assms
proof (induction "k - i" arbitrary: i sleeps)
  case 0
  then show ?case by simp
next
  case (Suc n)
  then have lt: "i < k" and i5: "i < 5" by simp_all
  from Suc.prems(1) lt obtain v where v: "getDoc i = Inr v" "\<not> truthy v" by blast
  have "pollOrderNumber getDoc i sleeps = pollOrderNumber getDoc (i + 1) (sleeps + 1)"
    using v i5 by (subst pollOrderNumber.simps) simp
  also have "\<dots> = pollOrderNumber getDoc k (sleeps + 1 + (k - (i + 1)))"
    using Suc.hyps(2) Suc.prems lt by (intro Suc.hyps(1)) auto
  also have "sleeps + 1 + (k - (i + 1)) = sleeps + (k - i)"
    using lt by arith
  finally show ?case .
qed

text \<open>
  Claim C9. The poller is a total function that reads the order at most five times. When
  the first read that sees a non-empty number is read \<open>k\<close> (counted from 0, below 5), it
  returns that number after \<open>k + 1\<close> reads; when none of the five reads sees a number, it
  returns \<open>null\<close> after exactly five reads and five sleeps, which is a result and not an
  error, and the caller shows the confirmation without a number.
\<close>

theorem poller_bounded:
  "fst (snd (pollOrderNumber getDoc 0 0)) \<le> 5
   \<and> (k < 5 \<and> getDoc k = Inr (Some s) \<and> s \<noteq> []
        \<and> (\<forall>j < k. \<exists>v. getDoc j = Inr v \<and> \<not> truthy v) \<longrightarrow>
        pollOrderNumber getDoc 0 0 = (Inr (Some s), k + 1, k))
   \<and> ((\<forall>j < 5. \<exists>v. getDoc j = Inr v \<and> \<not> truthy v) \<longrightarrow>
        pollOrderNumber getDoc 0 0 = (Inr None, 5, 5)
        \<and> successMessage None = ''Order submitted successfully! Thank you for your support.'')"
proof (intro conjI impI)
  show "fst (snd (pollOrderNumber getDoc 0 0)) \<le> 5"
    by (rule pollOrderNumber_reads) simp
next
  assume h: "k < 5 \<and> getDoc k = Inr (Some s) \<and> s \<noteq> []
        \<and> (\<forall>j < k. \<exists>v. getDoc j = Inr v \<and> \<not> truthy v)"
  then have "pollOrderNumber getDoc 0 0 = pollOrderNumber getDoc k (0 + (k - 0))"
    by (intro pollOrderNumber_skip) auto
  also have "\<dots> = (Inr (Some s), k + 1, k)"
    using h by (subst pollOrderNumber.simps) (simp add: truthy_def)
  finally show "pollOrderNumber getDoc 0 0 = (Inr (Some s), k + 1, k)" .
next
  assume h: "\<forall>j < 5. \<exists>v. getDoc j = Inr v \<and> \<not> truthy v"
  then have "pollOrderNumber getDoc 0 0 = pollOrderNumber getDoc 5 (0 + (5 - 0))"
    by (intro pollOrderNumber_skip) auto
  also have "\<dots> = (Inr None, 5, 5)"
    by (subst pollOrderNumber.simps) simp
  finally show "pollOrderNumber getDoc 0 0 = (Inr None, 5, 5)" .
next
  show "successMessage None = ''Order submitted successfully! Thank you for your support.''"
    by (simp add: successMessage_def truthy_def)
qed

theorem poller_bounded_witness:
  "(2::nat) < 5 \<and> map numberedAtThird [0, 1, 2] = [Inr None, Inr None, Inr (Some ''#0007'')]
   \<and> pollOrderNumber numberedAtThird 0 0 = (Inr (Some ''#0007''), 3, 2)
   \<and> map neverNumbered [0, 1, 2, 3, 4] = [Inr None, Inr None, Inr None, Inr None, Inr None]
   \<and> pollOrderNumber neverNumbered 0 0 = (Inr None, 5, 5)"
proof -
  have a: "numberedAtThird 2 = Inr (Some ''#0007'')" by (simp add: numberedAtThird_def)
  have b: "\<forall>j < 2. \<exists>v. numberedAtThird j = Inr v \<and> \<not> truthy v"
    by (simp add: numberedAtThird_def truthy_def)
  have c: "\<forall>j < 5. \<exists>v. neverNumbered j = Inr v \<and> \<not> truthy v"
    by (simp add: neverNumbered_def truthy_def)
  from poller_bounded [of numberedAtThird 2 "''#0007''"] a b
  have 1: "pollOrderNumber numberedAtThird 0 0 = (Inr (Some ''#0007''), 3, 2)" by simp
  from poller_bounded [of neverNumbered 0 "''x''"] c
  have 2: "pollOrderNumber neverNumbered 0 0 = (Inr None, 5, 5)" by blast
  from 1 2 show ?thesis by (simp add: numberedAtThird_def neverNumbered_def)
qed

section \<open>Splitting and filtering the configured addresses\<close>

lemma splitSeparators_last:
  "dropWhile (\<lambda>c. \<not> isSeparator c) s = [] \<Longrightarrow>
     splitSeparators s = [takeWhile (\<lambda>c. \<not> isSeparator c) s]"
  by (subst splitSeparators.simps) (simp only: Let_def if_True simp_thms)

lemma splitSeparators_more:
  "dropWhile (\<lambda>c. \<not> isSeparator c) s \<noteq> [] \<Longrightarrow>
     splitSeparators s = takeWhile (\<lambda>c. \<not> isSeparator c) s
       # splitSeparators (dropWhile isSeparator (dropWhile (\<lambda>c. \<not> isSeparator c) s))"
  by (subst splitSeparators.simps) (simp only: Let_def if_False)

lemma splitSeparators_pieces:
  "\<forall>p \<in> set (splitSeparators s). \<forall>c \<in> set p. \<not> isSeparator c"
proof (induction s rule: splitSeparators.induct)
  case (1 s)
  let ?piece = "takeWhile (\<lambda>c. \<not> isSeparator c) s"
  let ?rest = "dropWhile (\<lambda>c. \<not> isSeparator c) s"
  have piece: "\<forall>c \<in> set ?piece. \<not> isSeparator c"
    by (auto dest: set_takeWhileD)
  show ?case
  proof (cases "?rest = []")
    case True
    show ?thesis unfolding splitSeparators_last [OF True] using piece by simp
  next
    case False
    from "1.IH" [OF refl refl False]
    have ih: "\<forall>p \<in> set (splitSeparators (dropWhile isSeparator ?rest)). \<forall>c \<in> set p. \<not> isSeparator c" .
    show ?thesis
    proof
      fix p assume "p \<in> set (splitSeparators s)"
      then have "p = ?piece \<or> p \<in> set (splitSeparators (dropWhile isSeparator ?rest))"
        unfolding splitSeparators_more [OF False] by simp
      then show "\<forall>c \<in> set p. \<not> isSeparator c" using piece ih by blast
    qed
  qed
qed

lemma splitSeparators_concat:
  "concat (splitSeparators s) = filter (\<lambda>c. \<not> isSeparator c) s"
proof (induction s rule: splitSeparators.induct)
  case (1 s)
  let ?piece = "takeWhile (\<lambda>c. \<not> isSeparator c) s"
  let ?rest = "dropWhile (\<lambda>c. \<not> isSeparator c) s"
  have s: "s = ?piece @ ?rest" by simp
  have piece: "filter (\<lambda>c. \<not> isSeparator c) ?piece = ?piece"
    by (simp add: filter_id_conv) (auto dest: set_takeWhileD)
  have split: "filter (\<lambda>c. \<not> isSeparator c) s = ?piece @ filter (\<lambda>c. \<not> isSeparator c) ?rest"
    by (subst s) (simp only: filter_append piece)
  show ?case
  proof (cases "?rest = []")
    case True
    have "filter (\<lambda>c. \<not> isSeparator c) ?rest = []" by (simp only: True filter.simps)
    with split show ?thesis unfolding splitSeparators_last [OF True] by simp
  next
    case False
    have "filter (\<lambda>c. \<not> isSeparator c) ?rest
        = filter (\<lambda>c. \<not> isSeparator c) (takeWhile isSeparator ?rest @ dropWhile isSeparator ?rest)"
      by simp
    also have "\<dots> = filter (\<lambda>c. \<not> isSeparator c) (dropWhile isSeparator ?rest)"
      by (simp only: filter_append) (auto simp: filter_empty_conv dest: set_takeWhileD)
    finally have r: "filter (\<lambda>c. \<not> isSeparator c) ?rest
        = filter (\<lambda>c. \<not> isSeparator c) (dropWhile isSeparator ?rest)" .
    from "1.IH" [OF refl refl False]
    have "concat (splitSeparators (dropWhile isSeparator ?rest))
        = filter (\<lambda>c. \<not> isSeparator c) (dropWhile isSeparator ?rest)" .
    then have "concat (?piece # splitSeparators (dropWhile isSeparator ?rest))
        = filter (\<lambda>c. \<not> isSeparator c) s"
      by (simp only: concat.simps split r)
    then show ?thesis unfolding splitSeparators_more [OF False] .
  qed
qed

lemma trim_no_space: "\<forall>c \<in> set p. \<not> isSpace c \<Longrightarrow> trim p = p"
proof -
  assume a: "\<forall>c \<in> set p. \<not> isSpace c"
  have d: "\<And>q. \<forall>c \<in> set q. \<not> isSpace c \<Longrightarrow> dropWhile isSpace q = q"
    by (case_tac q) auto
  from a have "dropWhile isSpace p = p" by (rule d)
  moreover from a have "dropWhile isSpace (rev p) = rev p" by (intro d) simp
  ultimately show ?thesis by (simp add: trim_def)
qed

lemma map_trim_splitSeparators: "map trim (splitSeparators s) = splitSeparators s"
proof -
  have "\<forall>p \<in> set (splitSeparators s). trim p = p"
  proof
    fix p assume "p \<in> set (splitSeparators s)"
    with splitSeparators_pieces [of s] have "\<forall>c \<in> set p. \<not> isSeparator c" by blast
    then have "\<forall>c \<in> set p. \<not> isSpace c" by (simp add: isSeparator_def)
    then show "trim p = p" by (rule trim_no_space)
  qed
  then show ?thesis by (simp add: map_idI)
qed

lemma getAdminRecipients_unfold:
  "getAdminRecipients env =
     (if rawAdminEmail env = [] then []
      else if filter keepAddress (splitSeparators (rawAdminEmail env)) = []
           then ADMIN_EMAIL_FALLBACKS
           else filter keepAddress (splitSeparators (rawAdminEmail env)))"
  unfolding getAdminRecipients_def Let_def map_trim_splitSeparators by simp

text \<open>
  Claim C4, as stated, fails: with no admin address configured the resolver returns the
  empty list, not the fallback list.
\<close>

theorem admin_recipients_empty_config:
  "rawAdminEmail unconfiguredEnv = [] \<and> getAdminRecipients unconfiguredEnv = []
   \<and> getAdminRecipients unconfiguredEnv \<noteq> ADMIN_EMAIL_FALLBACKS"
  by (simp add: getAdminRecipients_def rawAdminEmail_def unconfiguredEnv_def firstTruthy_def
      truthy_def orElse_def ADMIN_EMAIL_FALLBACKS_def)

text \<open>
  Claim C4, amended. For a non-empty configured string the resolver splits it at the runs
  of whitespace, commas and semicolons (the pieces contain no separator, and together
  they are the string without its separators; trimming changes none of them), drops the
  empty pieces and the addresses that are excluded after lower-casing, and returns the
  fallback list when nothing is left. For an empty configured string it returns the
  empty list.
\<close>

theorem admin_recipients_fallback:
  "(rawAdminEmail env = [] \<longrightarrow> getAdminRecipients env = [])
   \<and> (rawAdminEmail env \<noteq> [] \<longrightarrow>
        getAdminRecipients env
          = (if filter keepAddress (splitSeparators (rawAdminEmail env)) = []
             then ADMIN_EMAIL_FALLBACKS
             else filter keepAddress (splitSeparators (rawAdminEmail env)))
        \<and> getAdminRecipients env \<noteq> [])
   \<and> (\<forall>p \<in> set (splitSeparators (rawAdminEmail env)).
         trim p = p \<and> (\<forall>c \<in> set p. \<not> isSeparator c))
   \<and> concat (splitSeparators (rawAdminEmail env))
       = filter (\<lambda>c. \<not> isSeparator c) (rawAdminEmail env)
   \<and> (\<forall>a \<in> set (getAdminRecipients env).
         a \<noteq> [] \<and> (a \<in> set ADMIN_EMAIL_FALLBACKS \<or> toLowerCase a \<notin> set ADMIN_EMAIL_EXCLUSIONS))"
proof -
  have 1: "rawAdminEmail env = [] \<longrightarrow> getAdminRecipients env = []"
    by (simp add: getAdminRecipients_unfold)
  have 2: "rawAdminEmail env \<noteq> [] \<longrightarrow>
        getAdminRecipients env
          = (if filter keepAddress (splitSeparators (rawAdminEmail env)) = []
             then ADMIN_EMAIL_FALLBACKS
             else filter keepAddress (splitSeparators (rawAdminEmail env)))
        \<and> getAdminRecipients env \<noteq> []"
    by (simp add: getAdminRecipients_unfold ADMIN_EMAIL_FALLBACKS_def)
  have 3: "\<forall>p \<in> set (splitSeparators (rawAdminEmail env)).
         trim p = p \<and> (\<forall>c \<in> set p. \<not> isSeparator c)"
  proof
    fix p assume "p \<in> set (splitSeparators (rawAdminEmail env))"
    with splitSeparators_pieces [of "rawAdminEmail env"]
    have n: "\<forall>c \<in> set p. \<not> isSeparator c" by blast
    then have "\<forall>c \<in> set p. \<not> isSpace c" by (simp add: isSeparator_def)
    then have "trim p = p" by (rule trim_no_space)
    with n show "trim p = p \<and> (\<forall>c \<in> set p. \<not> isSeparator c)" by simp
  qed
  have 4: "concat (splitSeparators (rawAdminEmail env))
       = filter (\<lambda>c. \<not> isSeparator c) (rawAdminEmail env)"
    by (rule splitSeparators_concat)
  have 5: "\<forall>a \<in> set (getAdminRecipients env).
         a \<noteq> [] \<and> (a \<in> set ADMIN_EMAIL_FALLBACKS \<or> toLowerCase a \<notin> set ADMIN_EMAIL_EXCLUSIONS)"
    by (auto simp: getAdminRecipients_unfold keepAddress_def ADMIN_EMAIL_FALLBACKS_def
        split: if_splits)
  from 1 2 3 4 5 show ?thesis by blast
qed

theorem admin_recipients_fallback_witness:
  "rawAdminEmail unconfiguredEnv = [] \<and> getAdminRecipients unconfiguredEnv = []
   \<and> rawAdminEmail mixedEnv \<noteq> [] \<and> getAdminRecipients mixedEnv = [''a@x.com'']
   \<and> rawAdminEmail excludedOnlyEnv \<noteq> []
   \<and> getAdminRecipients excludedOnlyEnv = [''stolschristopher60@gmail.com'']"
proof -
  have r0: "rawAdminEmail unconfiguredEnv = []"
    by (simp add: rawAdminEmail_def unconfiguredEnv_def firstTruthy_def truthy_def orElse_def)
  have r1: "rawAdminEmail mixedEnv = ''a@x.com, Admin@TheCrookedFence.co.za''"
    by (simp add: rawAdminEmail_def mixedEnv_def configuredEnv_def firstTruthy_def truthy_def
        orElse_def)
  have r2: "rawAdminEmail excludedOnlyEnv = ''BradsGBaker14@gmail.com; admin@thecrookedfence.co.za''"
    by (simp add: rawAdminEmail_def excludedOnlyEnv_def configuredEnv_def firstTruthy_def
        truthy_def orElse_def)
  have f1: "filter keepAddress (splitSeparators ''a@x.com, Admin@TheCrookedFence.co.za'')
      = [''a@x.com'']"
    by code_simp
  have f2: "filter keepAddress
      (splitSeparators ''BradsGBaker14@gmail.com; admin@thecrookedfence.co.za'') = []"
    by code_simp
  from admin_recipients_fallback [of unconfiguredEnv] r0
  have 0: "getAdminRecipients unconfiguredEnv = []" by blast
  from admin_recipients_fallback [of mixedEnv]
  have 1: "getAdminRecipients mixedEnv = [''a@x.com'']" by (simp add: r1 f1)
  from admin_recipients_fallback [of excludedOnlyEnv]
  have 2: "getAdminRecipients excludedOnlyEnv = [''stolschristopher60@gmail.com'']"
    by (simp add: r2 f2 ADMIN_EMAIL_FALLBACKS_def)
  from r0 0 1 2 show ?thesis by (simp add: r1 r2)
qed

end
